theory Spec2Isabelle
  imports Complex_Main
begin

unbundle bit_operations_syntax

section \<open>Values of the program\<close>

text \<open>
  The module \<^verbatim>\<open>latlon-geohash.js\<close> works on JavaScript numbers and strings.

  Numbers. Every finite double is a rational, so finite numbers are values of type
  \<^typ>\<open>rat\<close>. The bisection starts from the integers 6, 36, 68 and 98 and only ever
  forms \<^verbatim>\<open>(min + max) / 2\<close>; after \<open>m\<close> halvings of one axis the operands are
  multiples of \<open>2 powi (1 - m)\<close> below 128, which a double holds exactly as long
  as \<open>m \<le> 47\<close>. A geohash of up to twelve symbols halves each axis 24 times, so for
  the geohashes of the specification (one to twelve symbols) the additions and
  halvings of the source are exact and the rational arithmetic below is the arithmetic
  of the program. The one place where a double is rounded, the conversion of the
  decimal string made by \<^verbatim>\<open>toFixed\<close> back to a number, is modelled by \<open>to_double\<close>.

  Strings are lists of code units, \<^typ>\<open>string\<close>; code units above 255 cannot be
  written in this type, and none of them lower-cases to a symbol of the alphabet.

  Errors. The source throws \<^verbatim>\<open>new Error('Invalid geohash')\<close> in \<^verbatim>\<open>encode\<close> and in
  \<^verbatim>\<open>bounds\<close>; the two sites are told apart as \<open>InvalidInput\<close> and \<open>InvalidGeohash\<close>.
  \<open>RangeError\<close> is what \<^verbatim>\<open>Number.prototype.toFixed\<close> throws for a digit count
  outside 0..100.
\<close>

datatype error = InvalidInput | InvalidGeohash | RangeError

text \<open>\<^verbatim>\<open>Geohash.base16 = '0123456789abcdef'\<close>\<close>

definition base16 :: string where
  "base16 = ''0123456789abcdef''"

text \<open>\<^verbatim>\<open>String.prototype.charAt\<close>: the empty string out of range.\<close>

definition charAt :: "string \<Rightarrow> nat \<Rightarrow> string" where
  "charAt s i = (if i < length s then [s ! i] else [])"

text \<open>\<^verbatim>\<open>String.prototype.indexOf\<close> for a one-symbol needle; \<open>None\<close> stands for -1.\<close>

fun indexOf :: "string \<Rightarrow> char \<Rightarrow> nat option" where
  "indexOf [] c = None"
| "indexOf (x # xs) c = (if x = c then Some 0 else map_option Suc (indexOf xs c))"

text \<open>
  \<^verbatim>\<open>String.prototype.toLowerCase\<close> on code units below 256: the letters A to Z and
  the Latin-1 capitals 192 to 222 (without the multiplication sign 215) move up by 32.
\<close>

definition toLowerCase_char :: "char \<Rightarrow> char" where
  "toLowerCase_char c =
     (let n = (of_char c :: nat)
      in if (65 \<le> n \<and> n \<le> 90) \<or> (192 \<le> n \<and> n \<le> 222 \<and> n \<noteq> 215)
         then char_of (n + 32) else c)"

definition toLowerCase :: "string \<Rightarrow> string" where
  "toLowerCase s = map toLowerCase_char s"

section \<open>bounds\<close>

record latlon =
  lat :: rat
  lon :: rat

record cell =
  sw :: latlon
  ne :: latlon

text \<open>The local variables that \<^verbatim>\<open>bounds\<close> and \<^verbatim>\<open>encode\<close> both keep while bisecting.\<close>

record walk =
  evenBit :: bool
  latMin :: rat
  latMax :: rat
  lonMin :: rat
  lonMax :: rat

text \<open>\<^verbatim>\<open>let latMin = 6, latMax = 36; let lonMin = 68, lonMax = 98;\<close> with \<^verbatim>\<open>evenBit = true\<close>\<close>

definition walk_init :: walk where
  "walk_init = \<lparr>evenBit = True, latMin = 6, latMax = 36, lonMin = 68, lonMax = 98\<rparr>"

text \<open>The body of the inner loop of \<^verbatim>\<open>bounds\<close> for bit \<open>n\<close> of \<open>idx\<close>.\<close>

definition bounds_bit :: "nat \<Rightarrow> nat \<Rightarrow> walk \<Rightarrow> walk" where
  "bounds_bit idx n w =
     (let bitN = drop_bit n idx AND 1;
          w' = (if evenBit w
                then (let lonMid = (lonMin w + lonMax w) / 2
                      in if bitN = 1 then w\<lparr>lonMin := lonMid\<rparr> else w\<lparr>lonMax := lonMid\<rparr>)
                else (let latMid = (latMin w + latMax w) / 2
                      in if bitN = 1 then w\<lparr>latMin := latMid\<rparr> else w\<lparr>latMax := latMid\<rparr>))
      in w'\<lparr>evenBit := \<not> evenBit w\<rparr>)"

text \<open>\<^verbatim>\<open>for (let n=3; n>=0; n--)\<close>\<close>

definition bounds_char :: "nat \<Rightarrow> walk \<Rightarrow> walk" where
  "bounds_char idx w = fold (bounds_bit idx) [3, 2, 1, 0] w"

text \<open>\<^verbatim>\<open>for (let i=0; i<geohash.length; i++)\<close>, leaving at the first symbol that is not in \<open>base16\<close>.\<close>

fun bounds_loop :: "string \<Rightarrow> walk \<Rightarrow> error + walk" where
  "bounds_loop [] w = Inr w"
| "bounds_loop (chr # rest) w =
     (case indexOf base16 chr of
        None \<Rightarrow> Inl InvalidGeohash
      | Some idx \<Rightarrow> bounds_loop rest (bounds_char idx w))"

definition cell_of :: "walk \<Rightarrow> cell" where
  "cell_of w = \<lparr>sw = \<lparr>lat = latMin w, lon = lonMin w\<rparr>, ne = \<lparr>lat = latMax w, lon = lonMax w\<rparr>\<rparr>"

definition bounds :: "string \<Rightarrow> error + cell" where
  "bounds geohash =
     (if length geohash = 0 then Inl InvalidGeohash
      else case bounds_loop (toLowerCase geohash) walk_init of
             Inl e \<Rightarrow> Inl e
           | Inr w \<Rightarrow> Inr (cell_of w))"

section \<open>decode\<close>

text \<open>
  \<^verbatim>\<open>Number(x.toFixed(f))\<close> rounds twice: \<^verbatim>\<open>toFixed\<close> to the nearest decimal with \<open>f\<close>
  fraction digits (the larger one at a tie, on the absolute value), and \<^verbatim>\<open>Number\<close>
  from that decimal to the nearest double (the even one at a tie). A double has a
  significand of 53 bits; exponent overflow and subnormal numbers are left out, the
  centroids of this program lie between 6 and 98.
\<close>

fun bitlen :: "nat \<Rightarrow> nat" where
  "bitlen n = (if n = 0 then 0 else Suc (bitlen (n div 2)))"

declare bitlen.simps [simp del]

text \<open>For \<open>x > 0\<close>, the exponent \<open>e\<close> with \<open>2 powi e \<le> x < 2 powi (e + 1)\<close>.\<close>

definition ilog2 :: "rat \<Rightarrow> int" where
  "ilog2 x = (if 1 \<le> x then int (bitlen (nat \<lfloor>x\<rfloor>)) - 1
              else - int (bitlen (nat (\<lceil>1 / x\<rceil> - 1))))"

definition round_half_even :: "rat \<Rightarrow> int" where
  "round_half_even y =
     (let f = \<lfloor>y\<rfloor>; r = y - of_int f
      in if r < 1 / 2 then f else if 1 / 2 < r then f + 1 else if even f then f else f + 1)"

definition to_double :: "rat \<Rightarrow> rat" where
  "to_double x =
     (if x = 0 then 0
      else let e = ilog2 \<bar>x\<bar>
           in if 52 \<le> e then of_int (round_half_even (x / 2 ^ nat (e - 52))) * 2 ^ nat (e - 52)
              else of_int (round_half_even (x * 2 ^ nat (52 - e))) / 2 ^ nat (52 - e))"

text \<open>
  \<^verbatim>\<open>Math.floor(2-Math.log(span)/Math.LN10)\<close> as \<^verbatim>\<open>toFixed\<close> reads it: the digit count
  \<open>d\<close> with \<open>10 powi (1 - d) < span \<le> 10 powi (2 - d)\<close> when it lies in 0..100, and
  \<open>None\<close> when it does not (or is infinite, for a span of 0); a negative span gives NaN,
  which \<^verbatim>\<open>toFixed\<close> reads as 0. The logarithm is taken exactly: the spans of one to
  twelve symbols are \<open>30 / 4 ^ L\<close>, whose decimal logarithms stay 0.05 away from every
  integer.
\<close>

definition fraction_digits :: "rat \<Rightarrow> nat option" where
  "fraction_digits width =
     (if width < 0 then Some 0
      else find (\<lambda>d. 10 < width * 10 ^ d \<and> width * 10 ^ d \<le> 100) [0..<101])"

text \<open>\<^verbatim>\<open>Number(x.toFixed(f))\<close>; from \<open>10 ^ 21\<close> on \<^verbatim>\<open>toFixed\<close> prints the number itself.\<close>

definition toFixed :: "rat \<Rightarrow> nat option \<Rightarrow> error + rat" where
  "toFixed x f =
     (case f of
        None \<Rightarrow> Inl RangeError
      | Some d \<Rightarrow>
          if 10 ^ 21 \<le> \<bar>x\<bar> then Inr x
          else if x < 0 then Inr (to_double (- (of_int \<lfloor>- x * 10 ^ d + 1 / 2\<rfloor> / 10 ^ d)))
          else Inr (to_double (of_int \<lfloor>x * 10 ^ d + 1 / 2\<rfloor> / 10 ^ d)))"

definition decode :: "string \<Rightarrow> error + latlon" where
  "decode geohash =
     (case bounds geohash of
        Inl e \<Rightarrow> Inl e
      | Inr b \<Rightarrow>
          (let latMin' = lat (sw b); lonMin' = lon (sw b);
               latMax' = lat (ne b); lonMax' = lon (ne b);
               lat' = (latMin' + latMax') / 2;
               lon' = (lonMin' + lonMax') / 2
           in case toFixed lat' (fraction_digits (latMax' - latMin')) of
                Inl e \<Rightarrow> Inl e
              | Inr lat'' \<Rightarrow>
                  (case toFixed lon' (fraction_digits (lonMax' - lonMin')) of
                     Inl e \<Rightarrow> Inl e
                   | Inr lon'' \<Rightarrow> Inr \<lparr>lat = lat'', lon = lon''\<rparr>)))"

section \<open>The bit codec\<close>

definition hexBinaryMap :: "char \<rightharpoonup> string" where
  "hexBinaryMap = map_of
     [(CHR ''0'', ''0000''), (CHR ''1'', ''0001''), (CHR ''2'', ''0010''), (CHR ''3'', ''0011''),
      (CHR ''4'', ''0100''), (CHR ''5'', ''0101''), (CHR ''6'', ''0110''), (CHR ''7'', ''0111''),
      (CHR ''8'', ''1000''), (CHR ''9'', ''1001''), (CHR ''a'', ''1010''), (CHR ''b'', ''1011''),
      (CHR ''c'', ''1100''), (CHR ''d'', ''1101''), (CHR ''e'', ''1110''), (CHR ''f'', ''1111'')]"

definition binaryHexMap :: "string \<rightharpoonup> string" where
  "binaryHexMap = map_of
     [(''0000'', ''0''), (''0001'', ''1''), (''0010'', ''2''), (''0011'', ''3''),
      (''0100'', ''4''), (''0101'', ''5''), (''0110'', ''6''), (''0111'', ''7''),
      (''1000'', ''8''), (''1001'', ''9''), (''1010'', ''a''), (''1011'', ''b''),
      (''1100'', ''c''), (''1101'', ''d''), (''1110'', ''e''), (''1111'', ''f'')]"

text \<open>
  \<^verbatim>\<open>s += map[key]\<close>: a key that the object does not have reads as \<^verbatim>\<open>undefined\<close>, and
  the concatenation appends the text \<^verbatim>\<open>undefined\<close>. (The keys used here have at most four
  symbols, shorter than every property that an object inherits.)
\<close>

definition append_lookup :: "string \<Rightarrow> ('k \<rightharpoonup> string) \<Rightarrow> 'k \<Rightarrow> string" where
  "append_lookup s m k = s @ (case m k of None \<Rightarrow> ''undefined'' | Some v \<Rightarrow> v)"

text \<open>\<^verbatim>\<open>String.prototype.substr(start, length)\<close> for a start inside the string.\<close>

definition substr :: "string \<Rightarrow> nat \<Rightarrow> nat \<Rightarrow> string" where
  "substr s i n = take n (drop i s)"

text \<open>\<^verbatim>\<open>for (let i = 0; i < binaryString.length; i = i+4)\<close>\<close>

definition binaryToHex :: "string \<Rightarrow> string" where
  "binaryToHex binaryString =
     foldl (\<lambda>s i. append_lookup s binaryHexMap (substr binaryString i 4)) []
       (filter (\<lambda>i. i mod 4 = 0) [0..<length binaryString])"

text \<open>\<^verbatim>\<open>for (let i = 0; i < hexString.length; i++)\<close>\<close>

definition hexToBinary :: "string \<Rightarrow> string" where
  "hexToBinary hexString =
     foldl (\<lambda>s i. append_lookup s hexBinaryMap (hexString ! i)) [] [0..<length hexString]"

section \<open>adjacent and neighbours\<close>

text \<open>
  \<^verbatim>\<open>parseInt(s, 2)\<close>: white space and a sign are skipped, the longest run of binary
  digits is read, and without a digit the result is NaN (\<open>None\<close>). The value is kept as
  an integer: a double holds it exactly up to 53 digits, the digit strings of a geohash of
  up to twelve symbols have 24.
\<close>

definition is_space :: "char \<Rightarrow> bool" where
  "is_space c = (of_char c \<in> {9, 10, 11, 12, 13, 32, 160 :: nat})"

definition is_bin_digit :: "char \<Rightarrow> bool" where
  "is_bin_digit c = (c = CHR ''0'' \<or> c = CHR ''1'')"

definition bin_value :: "string \<Rightarrow> nat" where
  "bin_value ds = foldl (\<lambda>a c. 2 * a + (if c = CHR ''1'' then 1 else 0)) 0 ds"

definition parseInt2 :: "string \<Rightarrow> int option" where
  "parseInt2 s =
     (let t = dropWhile is_space s;
          neg = (t \<noteq> [] \<and> hd t = CHR ''-'');
          u = (if t \<noteq> [] \<and> (hd t = CHR ''-'' \<or> hd t = CHR ''+'') then tl t else t);
          ds = takeWhile is_bin_digit u
      in if ds = [] then None
         else Some (if neg then - int (bin_value ds) else int (bin_value ds)))"

text \<open>\<^verbatim>\<open>Number.prototype.toString(2)\<close> of an integer, and of NaN.\<close>

fun bin_digits :: "nat \<Rightarrow> string" where
  "bin_digits n =
     (if n < 2 then [if n = 1 then CHR ''1'' else CHR ''0'']
      else bin_digits (n div 2) @ [if n mod 2 = 1 then CHR ''1'' else CHR ''0''])"

declare bin_digits.simps [simp del]

definition toString2 :: "int option \<Rightarrow> string" where
  "toString2 x =
     (case x of
        None \<Rightarrow> ''NaN''
      | Some n \<Rightarrow> if n < 0 then CHR ''-'' # bin_digits (nat (- n)) else bin_digits (nat n))"

text \<open>\<^verbatim>\<open>lngNum - 1\<close> and \<^verbatim>\<open>lngNum + 1\<close>: NaN stays NaN.\<close>

definition num_add :: "int option \<Rightarrow> int \<Rightarrow> int option" where
  "num_add x k = map_option (\<lambda>n. n + k) x"

definition leftpad :: "string \<Rightarrow> nat \<Rightarrow> string" where
  "leftpad s num = foldl (\<lambda>r i. r @ ''0'') [] [0..<num] @ s"

definition interleave :: "string \<Rightarrow> string \<Rightarrow> string" where
  "interleave lngs lats =
     (let lngs1 = (if length lngs < length lats then leftpad lngs (length lats - length lngs)
                   else lngs);
          lats1 = (if length lats < length lngs1 then leftpad lats (length lngs1 - length lats)
                   else lats)
      in foldl (\<lambda>s i. s @ charAt lngs1 i @ charAt lats1 i) [] [0..<length lngs1])"

text \<open>
  The four directions that \<^verbatim>\<open>adjacent\<close> knows, \<^verbatim>\<open>"n"\<close>, \<^verbatim>\<open>"e"\<close>, \<^verbatim>\<open>"w"\<close> and \<^verbatim>\<open>"s"\<close>
  in the order of its \<^verbatim>\<open>switch\<close>. With any other direction the source returns
  \<^verbatim>\<open>undefined\<close>; \<^verbatim>\<open>neighbours\<close> passes these four only.
\<close>

datatype direction = North | East | West | South

text \<open>The de-interleaving loop: even positions to \<^verbatim>\<open>lngs\<close>, odd positions to \<^verbatim>\<open>lats\<close>.\<close>

definition split_bits :: "string \<Rightarrow> string \<times> string" where
  "split_bits v =
     foldl (\<lambda>(lngs, lats) i.
              if i mod 2 = 0 then (lngs @ charAt v i, lats) else (lngs, lats @ charAt v i))
       ([], []) [0..<length v]"

definition adjacent :: "string \<Rightarrow> direction \<Rightarrow> string" where
  "adjacent geohash direction =
     (let v = hexToBinary geohash;
          (lngs, lats) = split_bits v;
          lngNum = parseInt2 lngs;
          latNum = parseInt2 lats;
          leftLng = toString2 (num_add lngNum (- 1));
          rightLng = toString2 (num_add lngNum 1);
          upLat = toString2 (num_add latNum 1);
          downLat = toString2 (num_add latNum (- 1))
      in case direction of
           North \<Rightarrow> binaryToHex (interleave lngs upLat)
         | East \<Rightarrow> binaryToHex (interleave rightLng lats)
         | West \<Rightarrow> binaryToHex (interleave leftLng lats)
         | South \<Rightarrow> binaryToHex (interleave lngs downLat))"

text \<open>The object that \<^verbatim>\<open>neighbours\<close> returns, as its list of keys and values.\<close>

definition neighbours :: "string \<Rightarrow> (string \<times> string) list" where
  "neighbours geohash =
     [(''n'', adjacent geohash North),
      (''ne'', adjacent (adjacent geohash North) East),
      (''e'', adjacent geohash East),
      (''se'', adjacent (adjacent geohash South) East),
      (''s'', adjacent geohash South),
      (''sw'', adjacent (adjacent geohash South) West),
      (''w'', adjacent geohash West),
      (''nw'', adjacent (adjacent geohash North) West)]"

section \<open>encode\<close>

text \<open>
  The arguments of \<^verbatim>\<open>encode\<close> after \<^verbatim>\<open>Number(...)\<close>: not-a-number, an infinity or a
  finite number. An omitted precision (\<^verbatim>\<open>undefined\<close>) is \<open>None\<close>. The search for a
  precision compares with \<^verbatim>\<open>==\<close> before the conversion; for arguments that are numbers
  the conversion changes nothing and \<^verbatim>\<open>==\<close> is the equality of numbers, which NaN and
  the infinities never have with a decoded coordinate.
\<close>

datatype jsnum = NaN | NegInf | Fin rat | PosInf

definition isNaN :: "jsnum \<Rightarrow> bool" where
  "isNaN x = (x = NaN)"

text \<open>\<^verbatim>\<open>x > m\<close> for a finite \<open>m\<close>.\<close>

fun gt :: "jsnum \<Rightarrow> rat \<Rightarrow> bool" where
  "gt NaN m = False"
| "gt NegInf m = False"
| "gt (Fin x) m = (m < x)"
| "gt PosInf m = True"

text \<open>\<^verbatim>\<open>geohash.length < precision\<close>\<close>

fun length_lt :: "nat \<Rightarrow> jsnum \<Rightarrow> bool" where
  "length_lt n NaN = False"
| "length_lt n NegInf = False"
| "length_lt n (Fin p) = (of_nat n < p)"
| "length_lt n PosInf = True"

record enc = walk +
  idx :: nat
  bit_n :: nat
  geohash :: string

definition enc_init :: enc where
  "enc_init = \<lparr>evenBit = True, latMin = 6, latMax = 36, lonMin = 68, lonMax = 98,
               idx = 0, bit_n = 0, geohash = []\<rparr>"

text \<open>One turn of the \<^verbatim>\<open>while\<close> loop; \<open>bit_n\<close> is the variable \<^verbatim>\<open>bit\<close>.\<close>

definition encode_step :: "jsnum \<Rightarrow> jsnum \<Rightarrow> enc \<Rightarrow> enc" where
  "encode_step lat' lon' s =
     (let s1 = (if evenBit s
                then (let lonMid = (lonMin s + lonMax s) / 2
                      in if gt lon' lonMid
                         then s\<lparr>idx := idx s * 2 + 1, lonMin := lonMid\<rparr>
                         else s\<lparr>idx := idx s * 2, lonMax := lonMid\<rparr>)
                else (let latMid = (latMin s + latMax s) / 2
                      in if gt lat' latMid
                         then s\<lparr>idx := idx s * 2 + 1, latMin := latMid\<rparr>
                         else s\<lparr>idx := idx s * 2, latMax := latMid\<rparr>));
          s2 = s1\<lparr>evenBit := \<not> evenBit s1\<rparr>;
          s3 = s2\<lparr>bit_n := bit_n s2 + 1\<rparr>
      in if bit_n s3 = 4
         then s3\<lparr>geohash := geohash s3 @ charAt base16 (idx s3), bit_n := 0, idx := 0\<rparr>
         else s3)"

text \<open>
  \<^verbatim>\<open>while (geohash.length < precision)\<close>. With an infinite precision the loop does not
  end, so the loop is a partial function and \<open>None\<close> is "no result".
\<close>

partial_function (option) encode_loop :: "jsnum \<Rightarrow> jsnum \<Rightarrow> jsnum \<Rightarrow> enc \<Rightarrow> string option" where
  "encode_loop lat' lon' precision s =
     (if length_lt (length (geohash s)) precision
      then encode_loop lat' lon' precision (encode_step lat' lon' s)
      else Some (geohash s))"

declare encode_loop.simps [code]

text \<open>\<^verbatim>\<open>encode\<close> from line 78 on: the precision is given.\<close>

definition encode_p :: "jsnum \<Rightarrow> jsnum \<Rightarrow> jsnum \<Rightarrow> (error + string) option" where
  "encode_p lat' lon' precision =
     (if isNaN lat' \<or> isNaN lon' \<or> isNaN precision then Some (Inl InvalidInput)
      else map_option Inr (encode_loop lat' lon' precision enc_init))"

text \<open>
  \<^verbatim>\<open>for (let p=1; p<=12; p++)\<close> of the branch for an omitted precision, and after it
  \<^verbatim>\<open>precision = 12\<close>. Exceptions of the inner \<^verbatim>\<open>encode\<close> and \<^verbatim>\<open>decode\<close> leave the loop.
\<close>

function encode_auto :: "jsnum \<Rightarrow> jsnum \<Rightarrow> nat \<Rightarrow> (error + string) option" where
  "encode_auto lat' lon' p =
     (if p \<le> 12
      then (case encode_p lat' lon' (Fin (of_nat p)) of
              None \<Rightarrow> None
            | Some (Inl e) \<Rightarrow> Some (Inl e)
            | Some (Inr hash) \<Rightarrow>
                (case decode hash of
                   Inl e \<Rightarrow> Some (Inl e)
                 | Inr posn \<Rightarrow>
                     if Fin (lat posn) = lat' \<and> Fin (lon posn) = lon' then Some (Inr hash)
                     else encode_auto lat' lon' (p + 1)))
      else encode_p lat' lon' (Fin 12))"
  by pat_completeness auto
termination
  by (relation "measure (\<lambda>(lat', lon', p). 13 - p)") auto

declare encode_auto.simps [simp del]

definition encode :: "jsnum \<Rightarrow> jsnum \<Rightarrow> jsnum option \<Rightarrow> (error + string) option" where
  "encode lat' lon' precision =
     (case precision of
        None \<Rightarrow> encode_auto lat' lon' 1
      | Some p \<Rightarrow> encode_p lat' lon' p)"

section \<open>Geohashes\<close>

text \<open>
  A geohash of the data model: one to twelve symbols of \<open>base16\<close>. \<^verbatim>\<open>bounds\<close> and
  \<^verbatim>\<open>decode\<close> lower-case their argument first, so they read a string as a geohash when
  its lower-cased form is one.
\<close>

definition valid_geohash :: "string \<Rightarrow> bool" where
  "valid_geohash h \<longleftrightarrow> h \<noteq> [] \<and> length h \<le> 12 \<and> (\<forall>c\<in>set h. c \<in> set base16)"

definition readable_geohash :: "string \<Rightarrow> bool" where
  "readable_geohash h \<longleftrightarrow> valid_geohash (toLowerCase h)"

section \<open>The bit sequence of a walk\<close>

text \<open>
  \<^verbatim>\<open>encode\<close> writes a sequence of bits and packs four of them into a symbol;
  \<^verbatim>\<open>bounds\<close> unpacks the symbols and follows the bits. The definitions of this section
  name the sequence, for the proofs: \<open>walk_step b\<close> is the narrowing that both functions
  do for a bit \<open>b\<close>, \<open>enc_choice\<close> the bit that \<^verbatim>\<open>encode\<close> chooses, \<open>enc_bits\<close> its first
  \<open>k\<close> choices, \<open>hex_of_bits\<close> the packing and \<open>bits_of_hex\<close> the unpacking.
\<close>

definition walk_step :: "bool \<Rightarrow> walk \<Rightarrow> walk" where
  "walk_step b w =
     (if evenBit w
      then (if b then w\<lparr>evenBit := False, lonMin := (lonMin w + lonMax w) / 2\<rparr>
            else w\<lparr>evenBit := False, lonMax := (lonMin w + lonMax w) / 2\<rparr>)
      else (if b then w\<lparr>evenBit := True, latMin := (latMin w + latMax w) / 2\<rparr>
            else w\<lparr>evenBit := True, latMax := (latMin w + latMax w) / 2\<rparr>))"

definition walk_bits :: "bool list \<Rightarrow> walk \<Rightarrow> walk" where
  "walk_bits bs w = fold walk_step bs w"

definition enc_choice :: "jsnum \<Rightarrow> jsnum \<Rightarrow> walk \<Rightarrow> bool" where
  "enc_choice lat' lon' w =
     (if evenBit w then gt lon' ((lonMin w + lonMax w) / 2)
      else gt lat' ((latMin w + latMax w) / 2))"

fun enc_bits :: "jsnum \<Rightarrow> jsnum \<Rightarrow> nat \<Rightarrow> walk \<Rightarrow> bool list" where
  "enc_bits lat' lon' 0 w = []"
| "enc_bits lat' lon' (Suc k) w =
     enc_choice lat' lon' w # enc_bits lat' lon' k (walk_step (enc_choice lat' lon' w) w)"

definition idx_of_bits :: "bool list \<Rightarrow> nat" where
  "idx_of_bits bs = foldl (\<lambda>a b. 2 * a + (if b then 1 else 0)) 0 bs"

fun hex_of_bits :: "bool list \<Rightarrow> string" where
  "hex_of_bits (b3 # b2 # b1 # b0 # bs) = (base16 ! idx_of_bits [b3, b2, b1, b0]) # hex_of_bits bs"
| "hex_of_bits bs = []"

definition bits_of_idx :: "nat \<Rightarrow> bool list" where
  "bits_of_idx i = [odd (i div 8), odd (i div 4), odd (i div 2), odd i]"

definition bits_of_hex :: "string \<Rightarrow> bool list" where
  "bits_of_hex h = concat (map (\<lambda>c. case indexOf base16 c of None \<Rightarrow> [] | Some i \<Rightarrow> bits_of_idx i) h)"

definition walk_of :: "enc \<Rightarrow> walk" where
  "walk_of s = \<lparr>evenBit = evenBit s, latMin = latMin s, latMax = latMax s,
               lonMin = lonMin s, lonMax = lonMax s\<rparr>"

section \<open>Automatic precision\<close>

text \<open>
  \<open>centroid_matches lat lon p\<close>: \<^verbatim>\<open>decode(encode(lat, lon, p))\<close> is equal to
  \<open>(lat, lon)\<close>, the test of the search for a precision.
\<close>

definition centroid_matches :: "jsnum \<Rightarrow> jsnum \<Rightarrow> nat \<Rightarrow> bool" where
  "centroid_matches lat' lon' p =
     (case encode lat' lon' (Some (Fin (of_nat p))) of
        Some (Inr h) \<Rightarrow>
          (case decode h of
             Inr posn \<Rightarrow> Fin (lat posn) = lat' \<and> Fin (lon posn) = lon'
           | Inl e \<Rightarrow> False)
      | _ \<Rightarrow> False)"

section \<open>Digit strings\<close>

text \<open>
  For the proofs about \<^verbatim>\<open>adjacent\<close>: \<open>is_bits\<close> says that a string has binary digits only,
  \<open>zip_bits\<close> is the interleaving of two strings of equal length, and \<open>bits_n k n\<close> is the
  number \<open>n\<close> written with \<open>k\<close> binary digits.
\<close>

definition is_bits :: "string \<Rightarrow> bool" where
  "is_bits s \<longleftrightarrow> (\<forall>c\<in>set s. is_bin_digit c)"

fun zip_bits :: "string \<Rightarrow> string \<Rightarrow> string" where
  "zip_bits (x # xs) (y # ys) = x # y # zip_bits xs ys"
| "zip_bits xs ys = []"

definition bits_n :: "nat \<Rightarrow> nat \<Rightarrow> string" where
  "bits_n k n = replicate (k - length (bin_digits n)) (CHR ''0'') @ bin_digits n"

text \<open>
  The integers that \<^verbatim>\<open>adjacent\<close> reads from a geohash, and the geohashes whose cell does
  not touch the border of the working domain: neither integer is zero or the largest
  number of its \<open>2 * length h\<close> digits.
\<close>

definition lngNum_of :: "string \<Rightarrow> int option" where
  "lngNum_of h = parseInt2 (fst (split_bits (hexToBinary h)))"

definition latNum_of :: "string \<Rightarrow> int option" where
  "latNum_of h = parseInt2 (snd (split_bits (hexToBinary h)))"

definition interior :: "string \<Rightarrow> bool" where
  "interior h =
     (case (lngNum_of h, latNum_of h) of
        (Some n, Some m) \<Rightarrow>
          0 < n \<and> n < 2 ^ (2 * length h) - 1 \<and> 0 < m \<and> m < 2 ^ (2 * length h) - 1
      | _ \<Rightarrow> False)"

text \<open>
  \<open>splits_to h a b\<close>: \<open>h\<close> is written in \<open>base16\<close>, and its binary form is the
  interleaving of the longitude digits \<open>a\<close> and the latitude digits \<open>b\<close>.
\<close>

definition splits_to :: "string \<Rightarrow> string \<Rightarrow> string \<Rightarrow> bool" where
  "splits_to h a b \<longleftrightarrow>
     (\<forall>c\<in>set h. c \<in> set base16) \<and> hexToBinary h = zip_bits a b
     \<and> length a = 2 * length h \<and> length b = 2 * length h \<and> is_bits a \<and> is_bits b"

section \<open>Properties of bounds\<close>

lemma indexOf_None_iff: "indexOf s c = None \<longleftrightarrow> c \<notin> set s"
  by (induction s) auto

lemma indexOf_Some_less: "indexOf s c = Some i \<Longrightarrow> i < length s \<and> s ! i = c"
  by (induction s arbitrary: i) (auto split: if_splits)

lemma bounds_loop_error: "bounds_loop h w = Inl e \<Longrightarrow> e = InvalidGeohash"
  by (induction h arbitrary: w) (auto split: option.splits)

lemma bounds_loop_Inl_iff:
  "(\<exists>e. bounds_loop h w = Inl e) \<longleftrightarrow> (\<exists>c\<in>set h. c \<notin> set base16)"
proof (induction h arbitrary: w)
  case Nil
  show ?case by simp
next
  case (Cons c h)
  show ?case
  proof (cases "indexOf base16 c")
    case None
    then have "c \<notin> set base16" by (simp add: indexOf_None_iff)
    with None show ?thesis by simp
  next
    case (Some i)
    then have "c \<in> set base16"
      using indexOf_None_iff [of base16 c] by simp
    with Some Cons show ?thesis by simp
  qed
qed

lemma bounds_loop_Inr:
  "\<forall>c\<in>set h. c \<in> set base16 \<Longrightarrow> \<exists>w'. bounds_loop h w = Inr w'"
  using bounds_loop_Inl_iff [of h w] by (cases "bounds_loop h w") auto

lemma bounds_loop_append:
  "bounds_loop (h1 @ h2) w =
     (case bounds_loop h1 w of Inl e \<Rightarrow> Inl e | Inr w1 \<Rightarrow> bounds_loop h2 w1)"
  by (induction h1 arbitrary: w) (auto split: option.splits)

lemma bounds_char_props:
  assumes "evenBit w"
  shows "evenBit (bounds_char i w)"
    and "lonMax (bounds_char i w) - lonMin (bounds_char i w) = (lonMax w - lonMin w) / 4"
    and "latMax (bounds_char i w) - latMin (bounds_char i w) = (latMax w - latMin w) / 4"
    and "lonMin w \<le> lonMax w \<Longrightarrow> lonMin w \<le> lonMin (bounds_char i w) \<and> lonMax (bounds_char i w) \<le> lonMax w"
    and "latMin w \<le> latMax w \<Longrightarrow> latMin w \<le> latMin (bounds_char i w) \<and> latMax (bounds_char i w) \<le> latMax w"
  using assms by (auto simp: bounds_char_def bounds_bit_def Let_def field_simps)

lemma bounds_loop_props:
  assumes "bounds_loop h w = Inr w'" and "evenBit w"
  shows "evenBit w' \<and> lonMax w' - lonMin w' = (lonMax w - lonMin w) / 4 ^ length h
         \<and> latMax w' - latMin w' = (latMax w - latMin w) / 4 ^ length h"
  using assms
proof (induction h arbitrary: w)
  case Nil
  then show ?case by simp
next
  case (Cons c h)
  from Cons.prems(1) obtain i where i: "indexOf base16 c = Some i"
    and loop: "bounds_loop h (bounds_char i w) = Inr w'"
    by (auto split: option.splits)
  let ?v = "bounds_char i w"
  have ev: "evenBit ?v" using Cons.prems(2) by (rule bounds_char_props(1))
  have lo: "lonMax ?v - lonMin ?v = (lonMax w - lonMin w) / 4"
    using Cons.prems(2) by (rule bounds_char_props(2))
  have la: "latMax ?v - latMin ?v = (latMax w - latMin w) / 4"
    using Cons.prems(2) by (rule bounds_char_props(3))
  from Cons.IH [OF loop ev] show ?case by (simp add: lo la)
qed

lemma bounds_loop_within:
  assumes "bounds_loop h w = Inr w'" and "evenBit w"
    and "lonMin w \<le> lonMax w" and "latMin w \<le> latMax w"
  shows "lonMin w \<le> lonMin w' \<and> lonMax w' \<le> lonMax w \<and> latMin w \<le> latMin w' \<and> latMax w' \<le> latMax w"
  using assms
proof (induction h arbitrary: w)
  case Nil
  then show ?case by simp
next
  case (Cons c h)
  from Cons.prems(1) obtain i where i: "indexOf base16 c = Some i"
    and loop: "bounds_loop h (bounds_char i w) = Inr w'"
    by (auto split: option.splits)
  let ?v = "bounds_char i w"
  have ev: "evenBit ?v" using Cons.prems(2) by (rule bounds_char_props(1))
  have lo: "lonMin w \<le> lonMin ?v \<and> lonMax ?v \<le> lonMax w"
    using Cons.prems(2,3) by (rule bounds_char_props(4))
  have la: "latMin w \<le> latMin ?v \<and> latMax ?v \<le> latMax w"
    using Cons.prems(2,4) by (rule bounds_char_props(5))
  have "lonMax ?v - lonMin ?v = (lonMax w - lonMin w) / 4"
    using Cons.prems(2) by (rule bounds_char_props(2))
  then have lo': "lonMin ?v \<le> lonMax ?v" using Cons.prems(3) by simp
  have "latMax ?v - latMin ?v = (latMax w - latMin w) / 4"
    using Cons.prems(2) by (rule bounds_char_props(3))
  then have la': "latMin ?v \<le> latMax ?v" using Cons.prems(4) by simp
  from Cons.IH [OF loop ev lo' la'] lo la show ?case by linarith
qed


lemma walk_init_simps:
  "evenBit walk_init" "latMin walk_init = 6" "latMax walk_init = 36"
  "lonMin walk_init = 68" "lonMax walk_init = 98"
  by (simp_all add: walk_init_def)

lemma cell_of_simps:
  "lat (sw (cell_of w)) = latMin w" "lon (sw (cell_of w)) = lonMin w"
  "lat (ne (cell_of w)) = latMax w" "lon (ne (cell_of w)) = lonMax w"
  by (simp_all add: cell_of_def)

lemma bounds_Inl_iff:
  "bounds h = Inl InvalidGeohash \<longleftrightarrow> h = [] \<or> (\<exists>c\<in>set h. toLowerCase_char c \<notin> set base16)"
proof (cases "h = []")
  case True
  then show ?thesis by (simp add: bounds_def)
next
  case False
  have "(\<exists>e. bounds_loop (toLowerCase h) walk_init = Inl e)
        \<longleftrightarrow> (\<exists>c\<in>set h. toLowerCase_char c \<notin> set base16)"
    by (simp add: bounds_loop_Inl_iff toLowerCase_def)
  moreover have "bounds h = Inl InvalidGeohash
        \<longleftrightarrow> (\<exists>e. bounds_loop (toLowerCase h) walk_init = Inl e)"
    using False bounds_loop_error [of "toLowerCase h" walk_init]
    by (auto simp: bounds_def split: sum.splits)
  ultimately show ?thesis using False by simp
qed

lemma bounds_error: "bounds h = Inl e \<Longrightarrow> e = InvalidGeohash"
  using bounds_loop_error [of "toLowerCase h" walk_init]
  by (auto simp: bounds_def split: sum.splits if_splits)

lemma bounds_readable:
  assumes "h \<noteq> []" and "\<forall>c\<in>set h. toLowerCase_char c \<in> set base16"
  obtains w where "bounds_loop (toLowerCase h) walk_init = Inr w"
    and "bounds h = Inr (cell_of w)"
    and "lonMax w - lonMin w = 30 / 4 ^ length h"
    and "latMax w - latMin w = 30 / 4 ^ length h"
    and "68 \<le> lonMin w" and "lonMax w \<le> 98" and "6 \<le> latMin w" and "latMax w \<le> 36"
proof -
  from assms(2) have "\<forall>c\<in>set (toLowerCase h). c \<in> set base16"
    by (simp add: toLowerCase_def)
  then obtain w where w: "bounds_loop (toLowerCase h) walk_init = Inr w"
    using bounds_loop_Inr by blast
  have b: "bounds h = Inr (cell_of w)"
    using assms(1) w by (simp add: bounds_def)
  have p: "lonMax w - lonMin w = 30 / 4 ^ length h \<and> latMax w - latMin w = 30 / 4 ^ length h"
    using bounds_loop_props [OF w walk_init_simps(1)]
    by (simp add: walk_init_simps toLowerCase_def)
  have q: "68 \<le> lonMin w \<and> lonMax w \<le> 98 \<and> 6 \<le> latMin w \<and> latMax w \<le> 36"
    using bounds_loop_within [OF w walk_init_simps(1)] by (simp add: walk_init_simps)
  from w b p q that show thesis by blast
qed

lemma readable_geohashD:
  "readable_geohash h \<Longrightarrow> h \<noteq> [] \<and> length h \<le> 12 \<and> (\<forall>c\<in>set h. toLowerCase_char c \<in> set base16)"
  by (auto simp: readable_geohash_def valid_geohash_def toLowerCase_def)

text \<open>
  C9. For every geohash of one to twelve symbols, \<^verbatim>\<open>bounds\<close> returns a cell whose corners
  are strictly ordered, \<open>sw.lat < ne.lat\<close> and \<open>sw.lon < ne.lon\<close>; the empty string is
  rejected as an invalid geohash.
\<close>

theorem bounds_corners_ordered:
  "(readable_geohash h \<longrightarrow>
      (\<exists>b. bounds h = Inr b \<and> lat (sw b) < lat (ne b) \<and> lon (sw b) < lon (ne b)))
   \<and> bounds [] = Inl InvalidGeohash"
proof
  show "readable_geohash h \<longrightarrow>
      (\<exists>b. bounds h = Inr b \<and> lat (sw b) < lat (ne b) \<and> lon (sw b) < lon (ne b))"
  proof
    assume "readable_geohash h"
    then have h: "h \<noteq> []" "\<forall>c\<in>set h. toLowerCase_char c \<in> set base16"
      using readable_geohashD by blast+
    from h obtain w where b: "bounds h = Inr (cell_of w)"
      and lo: "lonMax w - lonMin w = 30 / 4 ^ length h"
      and la: "latMax w - latMin w = 30 / 4 ^ length h"
      by (rule bounds_readable)
    have "(0::rat) < 30 / 4 ^ length h" by simp
    with lo la have "latMin w < latMax w" "lonMin w < lonMax w" by linarith+
    with b show "\<exists>b. bounds h = Inr b \<and> lat (sw b) < lat (ne b) \<and> lon (sw b) < lon (ne b)"
      by (simp add: cell_of_simps)
  qed
  show "bounds [] = Inl InvalidGeohash" by (simp add: bounds_def)
qed

theorem bounds_corners_ordered_witness:
  "readable_geohash ''3D3d'' \<and>
   (\<exists>b. bounds ''3D3d'' = Inr b \<and> lat (sw b) < lat (ne b) \<and> lon (sw b) < lon (ne b))"
proof -
  have r: "readable_geohash ''3D3d''"
    by code_simp
  with bounds_corners_ordered [of "''3D3d''"] show ?thesis by blast
qed

text \<open>
  C8. For a geohash \<open>h\<close> and a prefix length \<open>k\<close> with \<open>1 \<le> k < length h\<close>, the cell
  of \<open>h\<close> lies inside the cell of the prefix \<open>take k h\<close> and is strictly smaller on
  both axes.
\<close>

theorem bounds_prefix_strict:
  assumes "readable_geohash h" and "1 \<le> k" and "k < length h"
  shows "\<exists>b p. bounds h = Inr b \<and> bounds (take k h) = Inr p
           \<and> lat (sw p) \<le> lat (sw b) \<and> lat (ne b) \<le> lat (ne p)
           \<and> lon (sw p) \<le> lon (sw b) \<and> lon (ne b) \<le> lon (ne p)
           \<and> lat (ne b) - lat (sw b) < lat (ne p) - lat (sw p)
           \<and> lon (ne b) - lon (sw b) < lon (ne p) - lon (sw p)"
proof -
  let ?h1 = "take k h" and ?h2 = "drop k h"
  from assms(1) have h: "h \<noteq> []" "\<forall>c\<in>set h. toLowerCase_char c \<in> set base16"
    using readable_geohashD by blast+
  have h1: "?h1 \<noteq> []" "\<forall>c\<in>set ?h1. toLowerCase_char c \<in> set base16"
    using assms(2,3) h(2) by (auto dest: in_set_takeD)
  from h obtain w where w: "bounds_loop (toLowerCase h) walk_init = Inr w"
    and b: "bounds h = Inr (cell_of w)"
    by (rule bounds_readable)
  from h1 obtain v where v: "bounds_loop (toLowerCase ?h1) walk_init = Inr v"
    and p: "bounds ?h1 = Inr (cell_of v)"
    and vlo: "lonMax v - lonMin v = 30 / 4 ^ length ?h1"
    and vla: "latMax v - latMin v = 30 / 4 ^ length ?h1"
    by (rule bounds_readable)
  have split: "toLowerCase h = toLowerCase ?h1 @ toLowerCase ?h2"
    by (simp add: toLowerCase_def flip: map_append)
  have rest: "bounds_loop (toLowerCase ?h2) v = Inr w"
    using w v by (simp add: split bounds_loop_append)
  have ev: "evenBit v"
    using bounds_loop_props [OF v walk_init_simps(1)] by simp
  have pos: "(0::rat) < 30 / 4 ^ length ?h1" by simp
  have vle: "lonMin v \<le> lonMax v" "latMin v \<le> latMax v"
    using vlo vla pos by linarith+
  have within: "lonMin v \<le> lonMin w \<and> lonMax w \<le> lonMax v
                \<and> latMin v \<le> latMin w \<and> latMax w \<le> latMax v"
    using bounds_loop_within [OF rest ev vle] .
  have len: "0 < length (toLowerCase ?h2)"
    using assms(3) by (simp add: toLowerCase_def)
  have shrink: "lonMax w - lonMin w = (lonMax v - lonMin v) / 4 ^ length (toLowerCase ?h2)"
       "latMax w - latMin w = (latMax v - latMin v) / 4 ^ length (toLowerCase ?h2)"
    using bounds_loop_props [OF rest ev] by simp_all
  have one: "(1::rat) < 4 ^ length (toLowerCase ?h2)"
    using len by (simp add: one_less_power)
  have lt: "x / 4 ^ length (toLowerCase ?h2) < x" if "0 < x" for x :: rat
    using that one by (simp add: divide_less_eq)
  have "lonMax w - lonMin w < lonMax v - lonMin v" "latMax w - latMin w < latMax v - latMin v"
    using shrink lt [of "lonMax v - lonMin v"] lt [of "latMax v - latMin v"] vlo vla pos
    by simp_all
  with b p within show ?thesis by (simp add: cell_of_simps)
qed

theorem bounds_prefix_strict_witness:
  "readable_geohash ''3d3d'' \<and> (1::nat) \<le> 2 \<and> 2 < length ''3d3d''
   \<and> (\<exists>b p. bounds ''3d3d'' = Inr b \<and> bounds (take 2 ''3d3d'') = Inr p
           \<and> lat (sw p) \<le> lat (sw b) \<and> lat (ne b) \<le> lat (ne p)
           \<and> lon (sw p) \<le> lon (sw b) \<and> lon (ne b) \<le> lon (ne p)
           \<and> lat (ne b) - lat (sw b) < lat (ne p) - lat (sw p)
           \<and> lon (ne b) - lon (sw b) < lon (ne p) - lon (sw p))"
proof -
  have r: "readable_geohash ''3d3d''"
    by (simp add: readable_geohash_def valid_geohash_def toLowerCase_def toLowerCase_char_def base16_def)
  have k: "(1::nat) \<le> 2" "2 < length ''3d3d''" by simp_all
  from bounds_prefix_strict [OF r k] r k show ?thesis by blast
qed

section \<open>Errors of bounds and decode\<close>

lemma toFixed_error: "toFixed x f = Inl e \<Longrightarrow> e = RangeError"
  by (auto simp: toFixed_def split: option.splits if_splits)

lemma decode_Inl_iff: "decode h = Inl InvalidGeohash \<longleftrightarrow> bounds h = Inl InvalidGeohash"
proof (cases "bounds h")
  case (Inl e)
  then show ?thesis by (simp add: decode_def)
next
  case (Inr b)
  then show ?thesis
    by (auto simp: decode_def Let_def split: sum.splits dest: toFixed_error)
qed

lemma fraction_digits_SomeI:
  assumes "d \<le> 100" and "10 < x * 10 ^ d" and "x * 10 ^ d \<le> 100"
  shows "\<exists>d'. fraction_digits x = Some d' \<and> 10 < x * 10 ^ d' \<and> x * 10 ^ d' \<le> 100"
proof -
  let ?P = "\<lambda>d. 10 < x * 10 ^ d \<and> x * 10 ^ d \<le> 100"
  have pos: "\<not> x < 0"
  proof
    assume "x < 0"
    then have "x * 10 ^ d < 0" by (simp add: mult_neg_pos)
    with assms(2) show False by simp
  qed
  have "d \<in> set [0..<101]" using assms(1) by simp
  with assms(2,3) have "find ?P [0..<101] \<noteq> None"
    unfolding find_None_iff by blast
  then obtain d' where d': "find ?P [0..<101] = Some d'" by blast
  then have "?P d'" unfolding find_Some_iff by blast
  with d' pos show ?thesis by (simp add: fraction_digits_def)
qed

lemma fraction_digits_span:
  assumes "1 \<le> L" and "L \<le> 12"
  shows "\<exists>d. fraction_digits (30 / 4 ^ L) = Some d
            \<and> 10 < (30 / 4 ^ L :: rat) * 10 ^ d \<and> (30 / 4 ^ L :: rat) * 10 ^ d \<le> 100"
proof -
  have "\<forall>L\<in>set [1..<13]. \<exists>d\<in>set [0..<8].
          10 < (30 / 4 ^ L :: rat) * 10 ^ d \<and> (30 / 4 ^ L :: rat) * 10 ^ d \<le> 100"
    by code_simp
  moreover have "L \<in> set [1..<13]" using assms by simp
  ultimately obtain d where "d \<in> set [0..<8]"
    and "10 < (30 / 4 ^ L :: rat) * 10 ^ d" and "(30 / 4 ^ L :: rat) * 10 ^ d \<le> 100"
    by blast
  then show ?thesis
    using fraction_digits_SomeI [of d "30 / 4 ^ L"] by simp
qed

lemma toFixed_Some: "\<exists>y. toFixed x (Some d) = Inr y"
  by (simp add: toFixed_def)

lemma decode_readable:
  assumes "readable_geohash h"
  shows "\<exists>p. decode h = Inr p"
proof -
  from assms have h: "h \<noteq> []" "\<forall>c\<in>set h. toLowerCase_char c \<in> set base16"
    and len: "1 \<le> length h" "length h \<le> 12"
    using readable_geohashD [of h] by (auto simp: Suc_le_eq)
  from h obtain w where b: "bounds h = Inr (cell_of w)"
    and lo: "lonMax w - lonMin w = 30 / 4 ^ length h"
    and la: "latMax w - latMin w = 30 / 4 ^ length h"
    by (rule bounds_readable)
  from fraction_digits_span [OF len] obtain d
    where d: "fraction_digits (30 / 4 ^ length h) = Some d" by blast
  obtain y1 where y1: "toFixed ((latMin w + latMax w) / 2) (Some d) = Inr y1"
    using toFixed_Some by blast
  obtain y2 where y2: "toFixed ((lonMin w + lonMax w) / 2) (Some d) = Inr y2"
    using toFixed_Some by blast
  show ?thesis
    by (simp add: decode_def b cell_of_simps Let_def lo la d y1 y2)
qed

text \<open>
  C7. \<^verbatim>\<open>bounds\<close>, and with it \<^verbatim>\<open>decode\<close>, raises the invalid-geohash error exactly for
  the empty string and for a string with a symbol that, lower-cased, is not in
  \<open>0123456789abcdef\<close>; \<^verbatim>\<open>bounds\<close> raises nothing else, a geohash of one to twelve
  symbols raises nothing in either function, and \<^verbatim>\<open>bounds("")\<close> and \<^verbatim>\<open>bounds("xyz")\<close>
  raise.
\<close>

theorem bounds_raises_iff:
  "(bounds h = Inl InvalidGeohash
      \<longleftrightarrow> h = [] \<or> (\<exists>c\<in>set h. toLowerCase_char c \<notin> set base16))
   \<and> (decode h = Inl InvalidGeohash
      \<longleftrightarrow> h = [] \<or> (\<exists>c\<in>set h. toLowerCase_char c \<notin> set base16))
   \<and> (\<forall>e. bounds h = Inl e \<longrightarrow> e = InvalidGeohash)
   \<and> (readable_geohash h \<longrightarrow> (\<exists>b. bounds h = Inr b) \<and> (\<exists>p. decode h = Inr p))
   \<and> bounds '''' = Inl InvalidGeohash
   \<and> bounds ''xyz'' = Inl InvalidGeohash"
proof (intro conjI)
  show "bounds h = Inl InvalidGeohash
      \<longleftrightarrow> h = [] \<or> (\<exists>c\<in>set h. toLowerCase_char c \<notin> set base16)"
    by (rule bounds_Inl_iff)
  then show "decode h = Inl InvalidGeohash
      \<longleftrightarrow> h = [] \<or> (\<exists>c\<in>set h. toLowerCase_char c \<notin> set base16)"
    by (simp only: decode_Inl_iff)
  show "\<forall>e. bounds h = Inl e \<longrightarrow> e = InvalidGeohash"
    using bounds_error by blast
  show "readable_geohash h \<longrightarrow> (\<exists>b. bounds h = Inr b) \<and> (\<exists>p. decode h = Inr p)"
  proof
    assume r: "readable_geohash h"
    then have "h \<noteq> []" "\<forall>c\<in>set h. toLowerCase_char c \<in> set base16"
      using readable_geohashD by blast+
    then have "\<exists>b. bounds h = Inr b" by (rule bounds_readable) blast
    with decode_readable [OF r]
    show "(\<exists>b. bounds h = Inr b) \<and> (\<exists>p. decode h = Inr p)" by blast
  qed
  show "bounds '''' = Inl InvalidGeohash" by (simp add: bounds_def)
  have "CHR ''x'' \<in> set ''xyz''" by simp
  moreover have "toLowerCase_char CHR ''x'' \<notin> set base16" by code_simp
  ultimately show "bounds ''xyz'' = Inl InvalidGeohash"
    unfolding bounds_Inl_iff by blast
qed

theorem bounds_raises_iff_witness:
  "readable_geohash ''3D3d'' \<and> (\<exists>b. bounds ''3D3d'' = Inr b) \<and> (\<exists>p. decode ''3D3d'' = Inr p)
   \<and> CHR ''z'' \<in> set ''3dz'' \<and> bounds ''3dz'' = Inl InvalidGeohash
   \<and> decode ''3dz'' = Inl InvalidGeohash"
proof -
  have r: "readable_geohash ''3D3d''" by code_simp
  have z: "CHR ''z'' \<in> set ''3dz''" by simp
  have n: "toLowerCase_char CHR ''z'' \<notin> set base16" by code_simp
  from z n have bad: "''3dz'' = [] \<or> (\<exists>c\<in>set ''3dz''. toLowerCase_char c \<notin> set base16)"
    by blast
  from bounds_raises_iff [of "''3D3d''"] bounds_raises_iff [of "''3dz''"] r z bad
  show ?thesis by blast
qed

section \<open>Symbols and bits\<close>

lemma length_base16: "length base16 = 16"
  by (simp add: base16_def)

lemma indexOf_base16_nth: "i < 16 \<Longrightarrow> indexOf base16 (base16 ! i) = Some i"
proof -
  have "\<forall>i\<in>set [0..<16]. indexOf base16 (base16 ! i) = Some i"
    by code_simp
  then show "i < 16 \<Longrightarrow> indexOf base16 (base16 ! i) = Some i" by simp
qed

lemma indexOf_base16_less: "indexOf base16 c = Some i \<Longrightarrow> i < 16 \<and> base16 ! i = c"
  using indexOf_Some_less [of base16 c i] by (simp add: length_base16)

lemma idx_of_bits4_less: "idx_of_bits [b3, b2, b1, b0] < 16"
  by (simp add: idx_of_bits_def)

lemma bits_of_idx_of_bits: "bits_of_idx (idx_of_bits [b3, b2, b1, b0]) = [b3, b2, b1, b0]"
  by (cases b3; cases b2; cases b1; cases b0) (simp_all add: bits_of_idx_def idx_of_bits_def)

lemma idx_of_bits_of_idx: "i < 16 \<Longrightarrow> idx_of_bits (bits_of_idx i) = i"
proof -
  have "\<forall>i\<in>set [0..<16]. idx_of_bits (bits_of_idx i) = i"
    by code_simp
  then show "i < 16 \<Longrightarrow> idx_of_bits (bits_of_idx i) = i" by simp
qed

lemma bounds_bit_walk_step: "bounds_bit i n w = walk_step (odd (i div 2 ^ n)) w"
proof -
  have "drop_bit n i AND 1 = 1 \<longleftrightarrow> odd (i div 2 ^ n)"
    by (simp add: and_one_eq drop_bit_eq_div mod_2_eq_odd)
  then show ?thesis
    by (simp add: bounds_bit_def walk_step_def Let_def)
qed

lemma bounds_char_walk_bits: "bounds_char i w = walk_bits (bits_of_idx i) w"
  by (simp add: bounds_char_def walk_bits_def bits_of_idx_def bounds_bit_walk_step)

lemma walk_bits_append: "walk_bits (bs @ cs) w = walk_bits cs (walk_bits bs w)"
  by (simp add: walk_bits_def)

lemma bounds_loop_bits:
  assumes "\<forall>c\<in>set h. c \<in> set base16"
  shows "bounds_loop h w = Inr (walk_bits (bits_of_hex h) w)"
  using assms
proof (induction h arbitrary: w)
  case Nil
  show ?case by (simp add: bits_of_hex_def walk_bits_def)
next
  case (Cons c h)
  from Cons.prems obtain i where i: "indexOf base16 c = Some i"
    using indexOf_None_iff [of base16 c] by (cases "indexOf base16 c") auto
  have "bits_of_hex (c # h) = bits_of_idx i @ bits_of_hex h"
    by (simp add: bits_of_hex_def i)
  with Cons i show ?case
    by (simp add: walk_bits_append bounds_char_walk_bits)
qed

lemma hex_of_bits_of_hex:
  assumes "\<forall>c\<in>set h. c \<in> set base16"
  shows "hex_of_bits (bits_of_hex h) = h"
  using assms
proof (induction h)
  case Nil
  show ?case by (simp add: bits_of_hex_def)
next
  case (Cons c h)
  from Cons.prems obtain i where i: "indexOf base16 c = Some i"
    using indexOf_None_iff [of base16 c] by (cases "indexOf base16 c") auto
  then have lt: "i < 16" and c: "base16 ! i = c"
    using indexOf_base16_less by blast+
  have "bits_of_hex (c # h) = bits_of_idx i @ bits_of_hex h"
    by (simp add: bits_of_hex_def i)
  moreover have "idx_of_bits [odd (i div 8), odd (i div 4), odd (i div 2), odd i] = i"
    using idx_of_bits_of_idx [OF lt] by (simp add: bits_of_idx_def)
  ultimately show ?case
    using Cons c by (simp add: bits_of_idx_def)
qed

lemma length_bits_of_hex:
  assumes "\<forall>c\<in>set h. c \<in> set base16"
  shows "length (bits_of_hex h) = 4 * length h"
  using assms
proof (induction h)
  case Nil
  show ?case by (simp add: bits_of_hex_def)
next
  case (Cons c h)
  from Cons.prems obtain i where i: "indexOf base16 c = Some i"
    using indexOf_None_iff [of base16 c] by (cases "indexOf base16 c") auto
  have "bits_of_hex (c # h) = bits_of_idx i @ bits_of_hex h"
    by (simp add: bits_of_hex_def i)
  with Cons show ?case by (simp add: bits_of_idx_def)
qed

lemma length_enc_bits: "length (enc_bits lat' lon' k w) = k"
  by (induction k arbitrary: w) simp_all

lemma hex_of_bits_props:
  assumes "length bs = 4 * n"
  shows "length (hex_of_bits bs) = n \<and> (\<forall>c\<in>set (hex_of_bits bs). c \<in> set base16)
         \<and> bits_of_hex (hex_of_bits bs) = bs"
  using assms
proof (induction n arbitrary: bs)
  case 0
  then show ?case by (simp add: bits_of_hex_def)
next
  case (Suc n)
  then obtain b3 b2 b1 b0 cs where bs: "bs = b3 # b2 # b1 # b0 # cs" and cs: "length cs = 4 * n"
    by (cases bs; simp; rename_tac bs; case_tac bs; simp; rename_tac bs; case_tac bs; simp;
        rename_tac bs; case_tac bs; simp)
  let ?i = "idx_of_bits [b3, b2, b1, b0]"
  have lt: "?i < 16" by (rule idx_of_bits4_less)
  have mem: "base16 ! ?i \<in> set base16"
    using lt by (simp add: length_base16)
  have "bits_of_hex (hex_of_bits bs) = bits_of_idx ?i @ bits_of_hex (hex_of_bits cs)"
    by (simp add: bs bits_of_hex_def indexOf_base16_nth [OF lt])
  with Suc.IH [OF cs] mem show ?case
    by (simp add: bs bits_of_idx_of_bits)
qed

section \<open>The loop of encode\<close>

lemma walk_of_simps:
  "evenBit (walk_of s) = evenBit s" "latMin (walk_of s) = latMin s" "latMax (walk_of s) = latMax s"
  "lonMin (walk_of s) = lonMin s" "lonMax (walk_of s) = lonMax s"
  by (simp_all add: walk_of_def)

lemma walk_of_enc_init: "walk_of enc_init = walk_init"
  by (simp add: walk_of_def enc_init_def walk_init_def)

lemma encode_step_walk:
  "walk_of (encode_step lat' lon' s) = walk_step (enc_choice lat' lon' (walk_of s)) (walk_of s)"
  by (simp add: encode_step_def walk_step_def enc_choice_def walk_of_def Let_def)

lemma encode_step_early:
  assumes "bit_n s < 3"
  shows "geohash (encode_step lat' lon' s) = geohash s"
    and "bit_n (encode_step lat' lon' s) = bit_n s + 1"
    and "idx (encode_step lat' lon' s)
           = 2 * idx s + (if enc_choice lat' lon' (walk_of s) then 1 else 0)"
  using assms by (simp_all add: encode_step_def enc_choice_def walk_of_def Let_def)

lemma encode_step_fourth:
  assumes "bit_n s = 3"
  shows "geohash (encode_step lat' lon' s)
           = geohash s @ charAt base16 (2 * idx s + (if enc_choice lat' lon' (walk_of s) then 1 else 0))"
    and "bit_n (encode_step lat' lon' s) = 0"
    and "idx (encode_step lat' lon' s) = 0"
  using assms by (simp_all add: encode_step_def enc_choice_def walk_of_def Let_def mult.commute)

lemma encode_loop_continue:
  "length_lt (length (geohash s)) precision \<Longrightarrow>
     encode_loop lat' lon' precision s = encode_loop lat' lon' precision (encode_step lat' lon' s)"
  by (subst encode_loop.simps) simp

lemma encode_loop_stop:
  "\<not> length_lt (length (geohash s)) precision \<Longrightarrow>
     encode_loop lat' lon' precision s = Some (geohash s)"
  by (subst encode_loop.simps) simp

lemma encode_four_steps:
  fixes lat' lon' :: jsnum and s :: enc
  assumes "bit_n s = 0" and "idx s = 0" and c: "length_lt (length (geohash s)) precision"
  defines "bs \<equiv> enc_bits lat' lon' 4 (walk_of s)"
  shows "\<exists>s'. encode_loop lat' lon' precision s = encode_loop lat' lon' precision s'
           \<and> bit_n s' = 0 \<and> idx s' = 0
           \<and> geohash s' = geohash s @ hex_of_bits bs
           \<and> walk_of s' = walk_bits bs (walk_of s)"
proof -
  let ?st = "encode_step lat' lon'"
  let ?w0 = "walk_of s"
  let ?b3 = "enc_choice lat' lon' ?w0"
  let ?s1 = "?st s"
  let ?w1 = "walk_of ?s1"
  let ?b2 = "enc_choice lat' lon' ?w1"
  let ?s2 = "?st ?s1"
  let ?w2 = "walk_of ?s2"
  let ?b1 = "enc_choice lat' lon' ?w2"
  let ?s3 = "?st ?s2"
  let ?w3 = "walk_of ?s3"
  let ?b0 = "enc_choice lat' lon' ?w3"
  let ?s4 = "?st ?s3"
  have w1: "?w1 = walk_step ?b3 ?w0" by (rule encode_step_walk)
  have w2: "?w2 = walk_step ?b2 ?w1" by (rule encode_step_walk)
  have w3: "?w3 = walk_step ?b1 ?w2" by (rule encode_step_walk)
  have w4: "walk_of ?s4 = walk_step ?b0 ?w3" by (rule encode_step_walk)
  have s1: "geohash ?s1 = geohash s" "bit_n ?s1 = 1" "idx ?s1 = (if ?b3 then 1 else 0)"
    using encode_step_early [of s lat' lon'] assms(1,2) by simp_all
  have s2: "geohash ?s2 = geohash s" "bit_n ?s2 = 2"
    "idx ?s2 = 2 * idx ?s1 + (if ?b2 then 1 else 0)"
    using encode_step_early [of ?s1 lat' lon'] s1 by simp_all
  have s3: "geohash ?s3 = geohash s" "bit_n ?s3 = 3"
    "idx ?s3 = 2 * idx ?s2 + (if ?b1 then 1 else 0)"
    using encode_step_early [of ?s2 lat' lon'] s2 by simp_all
  have s4: "geohash ?s4 = geohash s @ charAt base16 (2 * idx ?s3 + (if ?b0 then 1 else 0))"
    "bit_n ?s4 = 0" "idx ?s4 = 0"
    using encode_step_fourth [of ?s3 lat' lon'] s3 by simp_all
  have bs: "bs = [?b3, ?b2, ?b1, ?b0]"
    unfolding bs_def by (simp add: numeral_eq_Suc w1 w2 w3)
  have i: "2 * idx ?s3 + (if ?b0 then 1 else 0) = idx_of_bits [?b3, ?b2, ?b1, ?b0]"
    by (simp only: s3 s2 s1) (simp add: idx_of_bits_def)
  have lt: "idx_of_bits [?b3, ?b2, ?b1, ?b0] < 16" by (rule idx_of_bits4_less)
  have g: "geohash ?s4 = geohash s @ hex_of_bits bs"
    using lt by (simp only: s4 i bs) (simp add: charAt_def length_base16)
  have w: "walk_of ?s4 = walk_bits bs (walk_of s)"
    by (simp only: bs w4 w3 w2 w1) (simp add: walk_bits_def)
  have "encode_loop lat' lon' precision s = encode_loop lat' lon' precision ?s1"
    using c by (rule encode_loop_continue)
  also have "\<dots> = encode_loop lat' lon' precision ?s2"
    using c by (intro encode_loop_continue) (simp add: s1)
  also have "\<dots> = encode_loop lat' lon' precision ?s3"
    using c by (intro encode_loop_continue) (simp add: s2)
  also have "\<dots> = encode_loop lat' lon' precision ?s4"
    using c by (intro encode_loop_continue) (simp add: s3)
  finally show ?thesis using s4(2,3) g w by blast
qed

lemma enc_bits_add:
  "enc_bits lat' lon' (j + k) w
     = enc_bits lat' lon' j w @ enc_bits lat' lon' k (walk_bits (enc_bits lat' lon' j w) w)"
  by (induction j arbitrary: w) (simp_all add: walk_bits_def)

lemma hex_of_bits_append4:
  "length bs = 4 \<Longrightarrow> hex_of_bits (bs @ cs) = hex_of_bits bs @ hex_of_bits cs"
  by (auto simp: numeral_eq_Suc length_Suc_conv)

lemma length_lt_Fin: "length_lt n (Fin p) \<longleftrightarrow> n < nat \<lceil>p\<rceil>"
proof -
  have "of_nat n < p \<longleftrightarrow> int n < \<lceil>p\<rceil>"
    by (simp add: less_ceiling_iff)
  then show ?thesis by auto
qed

lemma encode_loop_Fin:
  assumes "bit_n s = 0" and "idx s = 0"
  shows "encode_loop lat' lon' (Fin p) s
           = Some (geohash s @ hex_of_bits
                (enc_bits lat' lon' (4 * (nat \<lceil>p\<rceil> - length (geohash s))) (walk_of s)))"
  using assms
proof (induction "nat \<lceil>p\<rceil> - length (geohash s)" arbitrary: s)
  case 0
  then have "\<not> length (geohash s) < nat \<lceil>p\<rceil>" by simp
  then have "\<not> length_lt (length (geohash s)) (Fin p)"
    unfolding length_lt_Fin .
  then show ?case using 0 by (simp add: encode_loop_stop)
next
  case (Suc n)
  let ?bs = "enc_bits lat' lon' 4 (walk_of s)"
  from Suc.hyps(2) have "length (geohash s) < nat \<lceil>p\<rceil>" by simp
  then have c: "length_lt (length (geohash s)) (Fin p)"
    unfolding length_lt_Fin .
  from encode_four_steps [OF Suc.prems c, of lat' lon']
  obtain s' where run: "encode_loop lat' lon' (Fin p) s = encode_loop lat' lon' (Fin p) s'"
    and s': "bit_n s' = 0" "idx s' = 0"
    and g: "geohash s' = geohash s @ hex_of_bits ?bs"
    and w: "walk_of s' = walk_bits ?bs (walk_of s)"
    by blast
  have len: "length (hex_of_bits ?bs) = 1"
    using hex_of_bits_props [of ?bs 1] by (simp add: length_enc_bits)
  have n: "n = nat \<lceil>p\<rceil> - length (geohash s')"
    using Suc.hyps(2) by (simp add: g len)
  have k: "4 * (nat \<lceil>p\<rceil> - length (geohash s)) = 4 + 4 * n"
    using Suc.hyps(2) by simp
  have "encode_loop lat' lon' (Fin p) s'
          = Some (geohash s' @ hex_of_bits (enc_bits lat' lon' (4 * n) (walk_of s')))"
    using Suc.hyps(1) [OF n s'] n by simp
  then show ?case
    by (simp add: run g w k enc_bits_add hex_of_bits_append4 length_enc_bits)
qed

lemma encode_loop_Some_finite:
  "encode_loop lat' lon' precision s = Some g \<Longrightarrow> precision \<noteq> PosInf"
  by (rule encode_loop.raw_induct [where P = "\<lambda>_ _ precision _ _. precision \<noteq> PosInf"])
     (auto split: if_splits)

lemma encode_loop_PosInf: "encode_loop lat' lon' PosInf s = None"
  using encode_loop_Some_finite [of lat' lon' PosInf s] by (cases "encode_loop lat' lon' PosInf s") auto

lemma encode_loop_NegInf: "encode_loop lat' lon' NegInf enc_init = Some []"
  by (simp add: encode_loop_stop enc_init_def)

lemma encode_p_Fin:
  assumes "\<not> isNaN lat'" and "\<not> isNaN lon'"
  shows "encode_p lat' lon' (Fin p)
           = Some (Inr (hex_of_bits (enc_bits lat' lon' (4 * nat \<lceil>p\<rceil>) walk_init)))"
proof -
  have "encode_loop lat' lon' (Fin p) enc_init
          = Some (geohash enc_init @ hex_of_bits
               (enc_bits lat' lon' (4 * (nat \<lceil>p\<rceil> - length (geohash enc_init))) (walk_of enc_init)))"
    by (rule encode_loop_Fin) (simp_all add: enc_init_def)
  then have "encode_loop lat' lon' (Fin p) enc_init
          = Some (hex_of_bits (enc_bits lat' lon' (4 * nat \<lceil>p\<rceil>) walk_init))"
    by (simp add: walk_of_enc_init) (simp add: enc_init_def)
  with assms show ?thesis by (simp add: encode_p_def isNaN_def)
qed

lemma toLowerCase_base16: "c \<in> set base16 \<Longrightarrow> toLowerCase_char c = c"
proof -
  have "\<forall>c\<in>set base16. toLowerCase_char c = c" by code_simp
  then show "c \<in> set base16 \<Longrightarrow> toLowerCase_char c = c" by blast
qed

lemma toLowerCase_valid: "\<forall>c\<in>set h. c \<in> set base16 \<Longrightarrow> toLowerCase h = h"
  by (simp add: toLowerCase_def toLowerCase_base16 map_idI)

lemma valid_geohash_readable: "valid_geohash h \<Longrightarrow> readable_geohash h"
  using toLowerCase_valid [of h] by (simp add: readable_geohash_def valid_geohash_def)

lemma bounds_valid:
  assumes "h \<noteq> []" and "\<forall>c\<in>set h. c \<in> set base16"
  shows "bounds h = Inr (cell_of (walk_bits (bits_of_hex h) walk_init))"
  using assms by (simp add: bounds_def toLowerCase_valid bounds_loop_bits)

lemma hex_of_enc_bits:
  fixes lat' lon' :: jsnum
  defines "h \<equiv> \<lambda>n w. hex_of_bits (enc_bits lat' lon' (4 * n) w)"
  shows "length (h n w) = n" and "\<forall>c\<in>set (h n w). c \<in> set base16"
    and "bits_of_hex (h n w) = enc_bits lat' lon' (4 * n) w"
  using hex_of_bits_props [of "enc_bits lat' lon' (4 * n) w" n]
  by (simp_all add: h_def length_enc_bits)

lemma encode_p_valid:
  assumes "\<not> isNaN lat'" and "\<not> isNaN lon'" and "1 \<le> p" and "p \<le> 12"
  obtains h where "encode_p lat' lon' (Fin (of_nat p)) = Some (Inr h)"
    and "h = hex_of_bits (enc_bits lat' lon' (4 * p) walk_init)"
    and "valid_geohash h" and "length h = p"
proof -
  let ?h = "hex_of_bits (enc_bits lat' lon' (4 * p) walk_init)"
  have e: "encode_p lat' lon' (Fin (of_nat p)) = Some (Inr ?h)"
    using encode_p_Fin [OF assms(1,2), of "of_nat p"] by simp
  have l: "length ?h = p" by (rule hex_of_enc_bits(1))
  have a: "\<forall>c\<in>set ?h. c \<in> set base16" by (rule hex_of_enc_bits(2))
  have "?h \<noteq> []" using l assms(3) by auto
  with l a assms(4) have "valid_geohash ?h" by (simp add: valid_geohash_def)
  with e l that show thesis by blast
qed

section \<open>The tie at a midpoint\<close>

lemma encode_step_lon_tie:
  assumes "evenBit s"
  shows "lonMax (encode_step lat' (Fin ((lonMin s + lonMax s) / 2)) s) = (lonMin s + lonMax s) / 2"
    and "lonMin (encode_step lat' (Fin ((lonMin s + lonMax s) / 2)) s) = lonMin s"
    and "bit_n s + 1 = 4 \<Longrightarrow> geohash (encode_step lat' (Fin ((lonMin s + lonMax s) / 2)) s)
           = geohash s @ charAt base16 (idx s * 2)"
    and "bit_n s + 1 \<noteq> 4 \<Longrightarrow> idx (encode_step lat' (Fin ((lonMin s + lonMax s) / 2)) s) = idx s * 2"
    and "bit_n s + 1 \<noteq> 4 \<Longrightarrow> geohash (encode_step lat' (Fin ((lonMin s + lonMax s) / 2)) s) = geohash s"
  using assms by (simp_all add: encode_step_def Let_def)

lemma encode_step_lat_tie:
  assumes "\<not> evenBit s"
  shows "latMax (encode_step (Fin ((latMin s + latMax s) / 2)) lon' s) = (latMin s + latMax s) / 2"
    and "latMin (encode_step (Fin ((latMin s + latMax s) / 2)) lon' s) = latMin s"
    and "bit_n s + 1 = 4 \<Longrightarrow> geohash (encode_step (Fin ((latMin s + latMax s) / 2)) lon' s)
           = geohash s @ charAt base16 (idx s * 2)"
    and "bit_n s + 1 \<noteq> 4 \<Longrightarrow> idx (encode_step (Fin ((latMin s + latMax s) / 2)) lon' s) = idx s * 2"
    and "bit_n s + 1 \<noteq> 4 \<Longrightarrow> geohash (encode_step (Fin ((latMin s + latMax s) / 2)) lon' s) = geohash s"
  using assms by (simp_all add: encode_step_def Let_def)

text \<open>
  C6. In one turn of the loop of \<^verbatim>\<open>encode\<close>, from any state, a coordinate equal to the
  midpoint of the active axis gives the bit 0: the maximum of that axis moves down to the
  midpoint, the minimum stays, and the index is doubled without adding 1 (when the turn
  completes a symbol, the symbol of the doubled index is appended).
\<close>

theorem encode_step_midpoint_tie:
  "(evenBit s \<and> lon' = Fin ((lonMin s + lonMax s) / 2) \<longrightarrow>
      lonMax (encode_step lat' lon' s) = (lonMin s + lonMax s) / 2
      \<and> lonMin (encode_step lat' lon' s) = lonMin s
      \<and> (if bit_n s + 1 = 4
         then geohash (encode_step lat' lon' s) = geohash s @ charAt base16 (idx s * 2)
         else idx (encode_step lat' lon' s) = idx s * 2
              \<and> geohash (encode_step lat' lon' s) = geohash s))
   \<and> (\<not> evenBit s \<and> lat' = Fin ((latMin s + latMax s) / 2) \<longrightarrow>
      latMax (encode_step lat' lon' s) = (latMin s + latMax s) / 2
      \<and> latMin (encode_step lat' lon' s) = latMin s
      \<and> (if bit_n s + 1 = 4
         then geohash (encode_step lat' lon' s) = geohash s @ charAt base16 (idx s * 2)
         else idx (encode_step lat' lon' s) = idx s * 2
              \<and> geohash (encode_step lat' lon' s) = geohash s))"
proof (intro conjI impI)
  assume a: "evenBit s \<and> lon' = Fin ((lonMin s + lonMax s) / 2)"
  then have e: "evenBit s" and l: "lon' = Fin ((lonMin s + lonMax s) / 2)" by blast+
  show "lonMax (encode_step lat' lon' s) = (lonMin s + lonMax s) / 2"
    unfolding l using e by (rule encode_step_lon_tie(1))
  show "lonMin (encode_step lat' lon' s) = lonMin s"
    unfolding l using e by (rule encode_step_lon_tie(2))
  show "if bit_n s + 1 = 4
        then geohash (encode_step lat' lon' s) = geohash s @ charAt base16 (idx s * 2)
        else idx (encode_step lat' lon' s) = idx s * 2
             \<and> geohash (encode_step lat' lon' s) = geohash s"
  proof (cases "bit_n s + 1 = 4")
    case True
    with encode_step_lon_tie(3) [OF e True, of lat'] show ?thesis
      unfolding l by (simp only: if_True refl simp_thms)
  next
    case False
    with encode_step_lon_tie(4) [OF e False, of lat'] encode_step_lon_tie(5) [OF e False, of lat']
    show ?thesis unfolding l by (simp only: if_False refl simp_thms)
  qed
next
  assume a: "\<not> evenBit s \<and> lat' = Fin ((latMin s + latMax s) / 2)"
  then have e: "\<not> evenBit s" and l: "lat' = Fin ((latMin s + latMax s) / 2)" by blast+
  show "latMax (encode_step lat' lon' s) = (latMin s + latMax s) / 2"
    unfolding l using e by (rule encode_step_lat_tie(1))
  show "latMin (encode_step lat' lon' s) = latMin s"
    unfolding l using e by (rule encode_step_lat_tie(2))
  show "if bit_n s + 1 = 4
        then geohash (encode_step lat' lon' s) = geohash s @ charAt base16 (idx s * 2)
        else idx (encode_step lat' lon' s) = idx s * 2
             \<and> geohash (encode_step lat' lon' s) = geohash s"
  proof (cases "bit_n s + 1 = 4")
    case True
    with encode_step_lat_tie(3) [OF e True, of lon'] show ?thesis
      unfolding l by (simp only: if_True refl simp_thms)
  next
    case False
    with encode_step_lat_tie(4) [OF e False, of lon'] encode_step_lat_tie(5) [OF e False, of lon']
    show ?thesis unfolding l by (simp only: if_False refl simp_thms)
  qed
qed

theorem encode_step_midpoint_tie_witness:
  "evenBit enc_init \<and> Fin 83 = Fin ((lonMin enc_init + lonMax enc_init) / 2)
   \<and> lonMax (encode_step (Fin 20) (Fin 83) enc_init) = (lonMin enc_init + lonMax enc_init) / 2
   \<and> lonMin (encode_step (Fin 20) (Fin 83) enc_init) = lonMin enc_init
   \<and> idx (encode_step (Fin 20) (Fin 83) enc_init) = idx enc_init * 2"
proof -
  have h: "evenBit enc_init \<and> Fin 83 = Fin ((lonMin enc_init + lonMax enc_init) / 2)"
    by (simp add: enc_init_def)
  have b: "bit_n enc_init + 1 \<noteq> 4" by (simp add: enc_init_def)
  from encode_step_midpoint_tie [of enc_init "Fin 83" "Fin 20"] h b
  show ?thesis by (simp only: if_False simp_thms)
qed

section \<open>The cell of an encoded coordinate\<close>

lemma walk_step_contains:
  assumes "latMin w \<le> x" and "x \<le> latMax w" and "lonMin w \<le> y" and "y \<le> lonMax w"
  shows "latMin (walk_step (enc_choice (Fin x) (Fin y) w) w) \<le> x
         \<and> x \<le> latMax (walk_step (enc_choice (Fin x) (Fin y) w) w)
         \<and> lonMin (walk_step (enc_choice (Fin x) (Fin y) w) w) \<le> y
         \<and> y \<le> lonMax (walk_step (enc_choice (Fin x) (Fin y) w) w)"
  using assms by (auto simp: walk_step_def enc_choice_def)

lemma enc_bits_contains:
  assumes "latMin w \<le> x" and "x \<le> latMax w" and "lonMin w \<le> y" and "y \<le> lonMax w"
  shows "latMin (walk_bits (enc_bits (Fin x) (Fin y) k w) w) \<le> x
         \<and> x \<le> latMax (walk_bits (enc_bits (Fin x) (Fin y) k w) w)
         \<and> lonMin (walk_bits (enc_bits (Fin x) (Fin y) k w) w) \<le> y
         \<and> y \<le> lonMax (walk_bits (enc_bits (Fin x) (Fin y) k w) w)"
  using assms
proof (induction k arbitrary: w)
  case 0
  then show ?case by (simp add: walk_bits_def)
next
  case (Suc k)
  let ?v = "walk_step (enc_choice (Fin x) (Fin y) w) w"
  have "latMin ?v \<le> x \<and> x \<le> latMax ?v \<and> lonMin ?v \<le> y \<and> y \<le> lonMax ?v"
    using Suc.prems by (rule walk_step_contains)
  then have "latMin (walk_bits (enc_bits (Fin x) (Fin y) k ?v) ?v) \<le> x
         \<and> x \<le> latMax (walk_bits (enc_bits (Fin x) (Fin y) k ?v) ?v)
         \<and> lonMin (walk_bits (enc_bits (Fin x) (Fin y) k ?v) ?v) \<le> y
         \<and> y \<le> lonMax (walk_bits (enc_bits (Fin x) (Fin y) k ?v) ?v)"
    by (intro Suc.IH) simp_all
  then show ?case by (simp add: walk_bits_def)
qed

text \<open>
  C2. For a precision \<open>p\<close> from 1 to 12 and a coordinate of the working domain,
  \<open>6 \<le> lat \<le> 36\<close> and \<open>68 \<le> lon \<le> 98\<close>, \<^verbatim>\<open>encode\<close> returns a geohash and the
  rectangle that \<^verbatim>\<open>bounds\<close> returns for it contains the coordinate.
\<close>

theorem bounds_encode_contains:
  assumes "1 \<le> p" and "p \<le> 12" and "6 \<le> x" and "x \<le> 36" and "68 \<le> y" and "y \<le> 98"
  shows "\<exists>h b. encode (Fin x) (Fin y) (Some (Fin (of_nat p))) = Some (Inr h)
           \<and> bounds h = Inr b
           \<and> lat (sw b) \<le> x \<and> x \<le> lat (ne b) \<and> lon (sw b) \<le> y \<and> y \<le> lon (ne b)"
proof -
  have nn: "\<not> isNaN (Fin x)" "\<not> isNaN (Fin y)" by (simp_all add: isNaN_def)
  from nn assms(1,2) obtain h
    where e: "encode_p (Fin x) (Fin y) (Fin (of_nat p)) = Some (Inr h)"
      and h: "h = hex_of_bits (enc_bits (Fin x) (Fin y) (4 * p) walk_init)"
      and v: "valid_geohash h"
    by (rule encode_p_valid)
  let ?w = "walk_bits (enc_bits (Fin x) (Fin y) (4 * p) walk_init) walk_init"
  have "bits_of_hex h = enc_bits (Fin x) (Fin y) (4 * p) walk_init"
    unfolding h by (rule hex_of_enc_bits(3))
  then have b: "bounds h = Inr (cell_of ?w)"
    using v bounds_valid [of h] by (simp add: valid_geohash_def)
  have "latMin ?w \<le> x \<and> x \<le> latMax ?w \<and> lonMin ?w \<le> y \<and> y \<le> lonMax ?w"
    by (rule enc_bits_contains) (simp_all add: walk_init_simps assms)
  with e b show ?thesis by (simp add: encode_def cell_of_simps)
qed

theorem bounds_encode_contains_witness:
  "(1::nat) \<le> 4 \<and> (4::nat) \<le> 12 \<and> (6::rat) \<le> 20 \<and> (20::rat) \<le> 36 \<and> (68::rat) \<le> 80
   \<and> (80::rat) \<le> 98
   \<and> (\<exists>h b. encode (Fin 20) (Fin 80) (Some (Fin (of_nat 4))) = Some (Inr h)
           \<and> bounds h = Inr b
           \<and> lat (sw b) \<le> 20 \<and> 20 \<le> lat (ne b) \<and> lon (sw b) \<le> 80 \<and> 80 \<le> lon (ne b))"
proof -
  have a: "(1::nat) \<le> 4" "(4::nat) \<le> 12" "(6::rat) \<le> 20" "(20::rat) \<le> 36"
    "(68::rat) \<le> 80" "(80::rat) \<le> 98" by simp_all
  from bounds_encode_contains [OF a] a show ?thesis by blast
qed

section \<open>Errors of encode and the automatic precision\<close>

lemma decode_valid: "valid_geohash h \<Longrightarrow> \<exists>posn. decode h = Inr posn"
  by (rule decode_readable) (rule valid_geohash_readable)

lemma encode_auto_step:
  assumes "\<not> isNaN lat'" and "\<not> isNaN lon'" and "1 \<le> p" and "p \<le> 12"
  shows "encode_auto lat' lon' p
           = (if centroid_matches lat' lon' p then encode_p lat' lon' (Fin (of_nat p))
              else encode_auto lat' lon' (p + 1))"
proof -
  from assms obtain h where e: "encode_p lat' lon' (Fin (of_nat p)) = Some (Inr h)"
    and v: "valid_geohash h"
    by (rule encode_p_valid)
  from decode_valid [OF v] obtain posn where d: "decode h = Inr posn" by blast
  have m: "centroid_matches lat' lon' p \<longleftrightarrow> Fin (lat posn) = lat' \<and> Fin (lon posn) = lon'"
    by (simp add: centroid_matches_def encode_def e d)
  show ?thesis
    by (subst encode_auto.simps) (simp add: assms(4) e d m)
qed

lemma encode_auto_end: "encode_auto lat' lon' 13 = encode_p lat' lon' (Fin 12)"
  by (subst encode_auto.simps) simp

lemma encode_auto_none:
  assumes "\<not> isNaN lat'" and "\<not> isNaN lon'" and "1 \<le> p" and "p \<le> 13"
    and "\<forall>q. p \<le> q \<and> q \<le> 12 \<longrightarrow> \<not> centroid_matches lat' lon' q"
  shows "encode_auto lat' lon' p = encode_p lat' lon' (Fin 12)"
  using assms(3,4,5)
proof (induction "13 - p" arbitrary: p)
  case 0
  then have "p = 13" by simp
  then show ?case by (simp add: encode_auto_end)
next
  case (Suc n)
  then have le: "p \<le> 12" by simp
  have nm: "\<not> centroid_matches lat' lon' p" using Suc.prems(3) le by simp
  have "encode_auto lat' lon' (p + 1) = encode_p lat' lon' (Fin 12)"
    using Suc.hyps(2) Suc.prems le by (intro Suc.hyps(1)) simp_all
  then show ?case
    using encode_auto_step [OF assms(1,2) Suc.prems(1) le] nm by simp
qed

lemma encode_auto_first:
  assumes "\<not> isNaN lat'" and "\<not> isNaN lon'" and "1 \<le> p0" and "p0 \<le> p" and "p \<le> 12"
    and "centroid_matches lat' lon' p"
    and "\<forall>q. p0 \<le> q \<and> q < p \<longrightarrow> \<not> centroid_matches lat' lon' q"
  shows "encode_auto lat' lon' p0 = encode_p lat' lon' (Fin (of_nat p))"
  using assms(3,4,7)
proof (induction "p - p0" arbitrary: p0)
  case 0
  then have "p0 = p" by simp
  then show ?case
    using encode_auto_step [OF assms(1,2) "0.prems"(1), of] assms(5,6) by simp
next
  case (Suc n)
  then have lt: "p0 < p" by simp
  then have le: "p0 \<le> 12" using assms(5) by simp
  have nm: "\<not> centroid_matches lat' lon' p0" using Suc.prems(3) lt by simp
  have "encode_auto lat' lon' (p0 + 1) = encode_p lat' lon' (Fin (of_nat p))"
    using Suc.hyps(2) Suc.prems lt by (intro Suc.hyps(1)) simp_all
  then show ?case
    using encode_auto_step [OF assms(1,2) Suc.prems(1) le] nm by simp
qed

lemma encode_auto_returns:
  assumes "\<not> isNaN lat'" and "\<not> isNaN lon'"
  shows "\<exists>g. encode_auto lat' lon' 1 = Some (Inr g)"
proof (cases "\<exists>p. 1 \<le> p \<and> p \<le> 12 \<and> centroid_matches lat' lon' p")
  case True
  define p where "p = (LEAST p. 1 \<le> p \<and> p \<le> 12 \<and> centroid_matches lat' lon' p)"
  from True have p: "1 \<le> p \<and> p \<le> 12 \<and> centroid_matches lat' lon' p"
    unfolding p_def by (rule LeastI_ex)
  have least: "\<forall>q. 1 \<le> q \<and> q < p \<longrightarrow> \<not> centroid_matches lat' lon' q"
  proof (intro allI impI notI)
    fix q assume q: "1 \<le> q \<and> q < p" and m: "centroid_matches lat' lon' q"
    then have "1 \<le> q \<and> q \<le> 12 \<and> centroid_matches lat' lon' q" using p by simp
    then have "p \<le> q" unfolding p_def by (rule Least_le)
    with q show False by simp
  qed
  have "encode_auto lat' lon' 1 = encode_p lat' lon' (Fin (of_nat p))"
    using assms p least by (intro encode_auto_first) simp_all
  moreover obtain h where "encode_p lat' lon' (Fin (of_nat p)) = Some (Inr h)"
    using assms p by (blast intro: encode_p_valid)
  ultimately show ?thesis by simp
next
  case False
  then have "encode_auto lat' lon' 1 = encode_p lat' lon' (Fin 12)"
    using assms by (intro encode_auto_none) auto
  moreover obtain h where "encode_p lat' lon' (Fin (of_nat 12)) = Some (Inr h)"
    using assms by (rule encode_p_valid [of lat' lon' 12]) simp_all
  ultimately show ?thesis by simp
qed

lemma encode_auto_NaN:
  assumes "isNaN lat' \<or> isNaN lon'"
  shows "encode_auto lat' lon' 1 = Some (Inl InvalidInput)"
proof -
  have "encode_p lat' lon' (Fin 1) = Some (Inl InvalidInput)"
    using assms by (auto simp: encode_p_def)
  then show ?thesis by (subst encode_auto.simps) simp
qed

lemma encode_p_cases:
  "encode_p lat' lon' precision =
     (if isNaN lat' \<or> isNaN lon' \<or> isNaN precision then Some (Inl InvalidInput)
      else if precision = PosInf then None
      else Some (Inr (case precision of Fin p \<Rightarrow> hex_of_bits (enc_bits lat' lon' (4 * nat \<lceil>p\<rceil>) walk_init)
                        | _ \<Rightarrow> [])))"
proof (cases precision)
  case NaN
  then show ?thesis by (simp add: encode_p_def isNaN_def)
next
  case NegInf
  then show ?thesis by (simp add: encode_p_def isNaN_def encode_loop_NegInf)
next
  case (Fin p)
  then show ?thesis using encode_p_Fin [of lat' lon' p] by (auto simp: encode_p_def isNaN_def)
next
  case PosInf
  then show ?thesis by (simp add: encode_p_def isNaN_def encode_loop_PosInf)
qed

text \<open>
  C10. \<^verbatim>\<open>encode\<close> raises the invalid-input error exactly when the latitude, the longitude or
  a given precision is NaN after the conversion to a number, and it raises nothing else.
  With numbers for all arguments it returns a geohash, unless the precision is plus
  infinity: then the loop does not end and there is no result.
\<close>

theorem encode_raises_iff:
  "(encode lat' lon' precision = Some (Inl InvalidInput)
      \<longleftrightarrow> isNaN lat' \<or> isNaN lon' \<or> precision = Some NaN)
   \<and> (\<forall>e. encode lat' lon' precision = Some (Inl e) \<longrightarrow> e = InvalidInput)
   \<and> (\<not> isNaN lat' \<and> \<not> isNaN lon' \<and> precision \<noteq> Some NaN \<and> precision \<noteq> Some PosInf
        \<longrightarrow> (\<exists>g. encode lat' lon' precision = Some (Inr g)))
   \<and> (\<not> isNaN lat' \<and> \<not> isNaN lon' \<longrightarrow> encode lat' lon' (Some PosInf) = None)"
proof (cases precision)
  case None
  show ?thesis
  proof (cases "isNaN lat' \<or> isNaN lon'")
    case True
    with encode_auto_NaN [OF True] None show ?thesis
      by (auto simp: encode_def encode_p_cases isNaN_def)
  next
    case False
    then obtain g where "encode_auto lat' lon' 1 = Some (Inr g)"
      using encode_auto_returns [of lat' lon'] by blast
    with False None show ?thesis
      by (auto simp: encode_def encode_p_cases isNaN_def)
  qed
next
  case (Some q)
  then show ?thesis
    by (cases q) (auto simp: encode_def encode_p_cases isNaN_def)
qed

theorem encode_raises_iff_witness:
  "\<not> isNaN (Fin 20) \<and> \<not> isNaN (Fin 80) \<and> Some (Fin 4) \<noteq> Some NaN \<and> Some (Fin 4) \<noteq> Some PosInf
   \<and> (\<exists>g. encode (Fin 20) (Fin 80) (Some (Fin 4)) = Some (Inr g))
   \<and> encode (Fin 20) (Fin 80) (Some PosInf) = None
   \<and> encode NaN (Fin 80) None = Some (Inl InvalidInput)"
proof -
  have a: "\<not> isNaN (Fin 20) \<and> \<not> isNaN (Fin 80) \<and> Some (Fin 4) \<noteq> Some NaN
           \<and> Some (Fin 4) \<noteq> Some PosInf"
    by (simp add: isNaN_def)
  have b: "isNaN NaN" by (simp add: isNaN_def)
  from encode_raises_iff [of "Fin 20" "Fin 80" "Some (Fin 4)"]
    encode_raises_iff [of NaN "Fin 80" None] a b
  show ?thesis by blast
qed

text \<open>
  C5. For numbers \<open>lat\<close> and \<open>lon\<close>, \<^verbatim>\<open>encode(lat, lon)\<close> without a precision returns
  \<^verbatim>\<open>encode(lat, lon, p)\<close> for the smallest \<open>p\<close> from 1 to 12 for which
  \<^verbatim>\<open>decode(encode(lat, lon, p))\<close> is equal to \<open>(lat, lon)\<close>, and \<^verbatim>\<open>encode(lat, lon, 12)\<close>
  when there is no such \<open>p\<close>.
\<close>

theorem encode_auto_precision:
  assumes "\<not> isNaN lat'" and "\<not> isNaN lon'"
  shows "(\<forall>p. 1 \<le> p \<and> p \<le> 12 \<and> centroid_matches lat' lon' p
              \<and> (\<forall>q. 1 \<le> q \<and> q < p \<longrightarrow> \<not> centroid_matches lat' lon' q)
            \<longrightarrow> encode lat' lon' None = encode lat' lon' (Some (Fin (of_nat p))))
         \<and> ((\<forall>p. 1 \<le> p \<and> p \<le> 12 \<longrightarrow> \<not> centroid_matches lat' lon' p)
            \<longrightarrow> encode lat' lon' None = encode lat' lon' (Some (Fin 12)))"
proof (intro conjI allI impI)
  fix p
  assume p: "1 \<le> p \<and> p \<le> 12 \<and> centroid_matches lat' lon' p
              \<and> (\<forall>q. 1 \<le> q \<and> q < p \<longrightarrow> \<not> centroid_matches lat' lon' q)"
  have "encode_auto lat' lon' 1 = encode_p lat' lon' (Fin (of_nat p))"
    using assms p by (intro encode_auto_first) simp_all
  then show "encode lat' lon' None = encode lat' lon' (Some (Fin (of_nat p)))"
    by (simp add: encode_def)
next
  assume "\<forall>p. 1 \<le> p \<and> p \<le> 12 \<longrightarrow> \<not> centroid_matches lat' lon' p"
  then have "encode_auto lat' lon' 1 = encode_p lat' lon' (Fin 12)"
    using assms by (intro encode_auto_none) auto
  then show "encode lat' lon' None = encode lat' lon' (Some (Fin 12))"
    by (simp add: encode_def)
qed

section \<open>The loops of the bit codec and of adjacent\<close>

lemma foldl_index_concat:
  "foldl (\<lambda>s i. s @ f (xs ! i)) acc [0..<length xs] = acc @ concat (map f xs)"
proof (induction xs rule: rev_induct)
  case Nil
  show ?case by simp
next
  case (snoc x xs)
  have "foldl (\<lambda>s i. s @ f ((xs @ [x]) ! i)) acc [0..<length xs]
          = foldl (\<lambda>s i. s @ f (xs ! i)) acc [0..<length xs]"
    by (rule foldl_cong) (simp_all add: nth_append)
  with snoc show ?case by simp
qed

lemma hexToBinary_concat:
  "hexToBinary h = concat (map (\<lambda>c. case hexBinaryMap c of None \<Rightarrow> ''undefined'' | Some v \<Rightarrow> v) h)"
  unfolding hexToBinary_def append_lookup_def
  using foldl_index_concat [of "\<lambda>c. case hexBinaryMap c of None \<Rightarrow> ''undefined'' | Some v \<Rightarrow> v" h "[]"]
  by simp

lemma hexToBinary_simps:
  "hexToBinary [] = []"
  "hexToBinary (c # h) = (case hexBinaryMap c of None \<Rightarrow> ''undefined'' | Some v \<Rightarrow> v) @ hexToBinary h"
  by (simp_all add: hexToBinary_concat)

lemma leftpad_replicate: "leftpad s n = replicate n (CHR ''0'') @ s"
proof -
  have "foldl (\<lambda>r i. r @ ''0'') acc [0..<n] = acc @ replicate n (CHR ''0'')" for acc
    by (induction n) (simp_all add: replicate_append_same)
  then show ?thesis by (simp add: leftpad_def)
qed

lemma foldl_charAt_zip:
  assumes "length a = length b"
  shows "foldl (\<lambda>s i. s @ charAt a i @ charAt b i) acc [0..<length a] = acc @ zip_bits a b"
  using assms
proof (induction a arbitrary: b rule: rev_induct)
  case Nil
  then show ?case by simp
next
  case (snoc x a)
  then obtain y b' where b: "b = b' @ [y]" and len: "length a = length b'"
    by (cases b rule: rev_cases) auto
  have z: "zip_bits (a @ [x]) (b' @ [y]) = zip_bits a b' @ [x, y]"
    using len by (induction a b' rule: list_induct2) simp_all
  have "foldl (\<lambda>s i. s @ charAt (a @ [x]) i @ charAt (b' @ [y]) i) acc [0..<length a]
          = foldl (\<lambda>s i. s @ charAt a i @ charAt b' i) acc [0..<length a]"
    using len by (intro foldl_cong) (simp_all add: charAt_def nth_append)
  with snoc.IH [OF len] show ?case
    by (simp add: b z charAt_def len nth_append)
qed

lemma interleave_zip:
  "interleave a b =
     zip_bits (replicate (length b - length a) (CHR ''0'') @ a)
              (replicate (length a - length b) (CHR ''0'') @ b)"
proof -
  define a1 where "a1 = (if length a < length b then leftpad a (length b - length a) else a)"
  define b1 where "b1 = (if length b < length a1 then leftpad b (length a1 - length b) else b)"
  have a1: "a1 = replicate (length b - length a) (CHR ''0'') @ a"
    by (simp add: a1_def leftpad_replicate)
  have b1: "b1 = replicate (length a - length b) (CHR ''0'') @ b"
    by (auto simp: b1_def a1 leftpad_replicate)
  have len: "length a1 = length b1"
    by (simp add: a1 b1)
  have "interleave a b = foldl (\<lambda>s i. s @ charAt a1 i @ charAt b1 i) [] [0..<length a1]"
    by (simp add: interleave_def Let_def a1_def b1_def)
  also have "\<dots> = zip_bits a1 b1"
    using foldl_charAt_zip [OF len, of "[]"] by simp
  finally show ?thesis by (simp only: a1 b1)
qed

lemma split_bits_zip:
  assumes "length a = length b"
  shows "split_bits (zip_bits a b) = (a, b)"
proof -
  let ?f = "\<lambda>v. (\<lambda>(lngs, lats) i.
              if i mod 2 = 0 then (lngs @ charAt v i, lats) else (lngs, lats @ charAt v i))"
  have len: "length (zip_bits a b) = 2 * length a" if "length a = length b" for a b
    using that by (induction a b rule: list_induct2) simp_all
  show ?thesis using assms
  proof (induction a arbitrary: b rule: rev_induct)
    case Nil
    then show ?case by (simp add: split_bits_def)
  next
    case (snoc x a)
    then obtain y b' where b: "b = b' @ [y]" and l: "length a = length b'"
      by (cases b rule: rev_cases) auto
    have z: "zip_bits (a @ [x]) (b' @ [y]) = zip_bits a b' @ [x, y]"
      using l by (induction a b' rule: list_induct2) simp_all
    let ?v = "zip_bits a b'"
    have lv: "length ?v = 2 * length a" using l by (rule len)
    have "foldl (?f (?v @ [x, y])) ([], []) [0..<length ?v] = foldl (?f ?v) ([], []) [0..<length ?v]"
      by (intro foldl_cong) (auto simp: charAt_def nth_append)
    also have "\<dots> = (a, b')"
      using snoc.IH [OF l] by (simp add: split_bits_def)
    finally have pre: "foldl (?f (?v @ [x, y])) ([], []) [0..<length ?v] = (a, b')" .
    have up: "[0..<length (?v @ [x, y])] = [0..<length ?v] @ [length ?v, Suc (length ?v)]"
      by simp
    show ?case
      unfolding b z split_bits_def up foldl_append pre
      by (simp add: lv charAt_def nth_append)
  qed
qed

lemma foldl_append_acc:
  "foldl (\<lambda>s i. s @ f i) acc xs = acc @ foldl (\<lambda>s i. s @ f i) [] xs"
proof (induction xs rule: rev_induct)
  case Nil
  show ?case by simp
next
  case (snoc x xs)
  then show ?case by simp
qed

lemma binaryToHex_Nil: "binaryToHex [] = []"
  by (simp add: binaryToHex_def)

lemma filter_mod4_upt:
  "filter (\<lambda>i. i mod 4 = 0) [0..<4 + n] = 0 # map (\<lambda>i. i + 4) (filter (\<lambda>i. i mod 4 = 0) [0..<n])"
proof -
  have "[0..<4 + n] = [0..<4] @ [4..<4 + n]"
    using upt_add_eq_append [of 0 4 n] by simp
  moreover have "[4..<4 + n] = map (\<lambda>i. i + 4) [0..<n]"
    using map_add_upt [of 4 n] by (simp add: add.commute)
  moreover have "filter (\<lambda>i. i mod 4 = 0) [0..<4] = [0]"
    by (simp add: upt_rec)
  ultimately show ?thesis
    by (simp add: filter_map comp_def)
qed

lemma binaryToHex_chunk:
  assumes "length r = 4"
  shows "binaryToHex (r @ bs)
           = (case binaryHexMap r of None \<Rightarrow> ''undefined'' | Some v \<Rightarrow> v) @ binaryToHex bs"
proof -
  let ?look = "\<lambda>r. case binaryHexMap r of None \<Rightarrow> ''undefined'' | Some v \<Rightarrow> v"
  let ?g = "\<lambda>v. (\<lambda>s i. s @ ?look (substr v i 4))"
  have s0: "substr (r @ bs) 0 4 = r"
    using assms by (simp add: substr_def)
  have si: "substr (r @ bs) (i + 4) 4 = substr bs i 4" for i
    using assms by (simp add: substr_def)
  have "binaryToHex (r @ bs)
          = foldl (?g (r @ bs)) [] (0 # map (\<lambda>i. i + 4) (filter (\<lambda>i. i mod 4 = 0) [0..<length bs]))"
    using assms filter_mod4_upt [of "length bs"]
    by (simp add: binaryToHex_def append_lookup_def)
  also have "\<dots> = foldl (?g bs) (?look r) (filter (\<lambda>i. i mod 4 = 0) [0..<length bs])"
    by (simp add: s0 si foldl_map)
  also have "\<dots> = ?look r @ foldl (?g bs) [] (filter (\<lambda>i. i mod 4 = 0) [0..<length bs])"
    by (rule foldl_append_acc)
  finally show ?thesis
    by (simp add: binaryToHex_def append_lookup_def)
qed

lemma hex_symbol_bits:
  assumes "c \<in> set base16"
  obtains r where "hexBinaryMap c = Some r" and "length r = 4" and "is_bits r"
    and "binaryHexMap r = Some [c]"
proof -
  have "\<forall>c\<in>set base16. case hexBinaryMap c of None \<Rightarrow> False
          | Some r \<Rightarrow> length r = 4 \<and> is_bits r \<and> binaryHexMap r = Some [c]"
    by code_simp
  with assms that show thesis
    by (cases "hexBinaryMap c") auto
qed

lemma bits_symbol_hex:
  assumes "length r = 4" and "is_bits r"
  obtains c where "binaryHexMap r = Some [c]" and "c \<in> set base16" and "hexBinaryMap c = Some r"
proof -
  have "\<forall>r\<in>set (List.n_lists 4 ''01''). case binaryHexMap r of None \<Rightarrow> False
          | Some v \<Rightarrow> length v = 1 \<and> hd v \<in> set base16 \<and> hexBinaryMap (hd v) = Some r"
    by code_simp
  moreover have "r \<in> set (List.n_lists 4 ''01'')"
    using assms by (auto simp: set_n_lists is_bits_def is_bin_digit_def)
  ultimately have "case binaryHexMap r of None \<Rightarrow> False
          | Some v \<Rightarrow> length v = 1 \<and> hd v \<in> set base16 \<and> hexBinaryMap (hd v) = Some r"
    by blast
  then obtain v where v: "binaryHexMap r = Some v" "length v = 1" "hd v \<in> set base16"
    "hexBinaryMap (hd v) = Some r"
    by (cases "binaryHexMap r") auto
  then have "v = [hd v]" by (cases v) auto
  with v that show thesis by metis
qed

lemma is_bits_append: "is_bits (s @ t) \<longleftrightarrow> is_bits s \<and> is_bits t"
  by (auto simp: is_bits_def)

lemma hexToBinary_valid:
  assumes "\<forall>c\<in>set h. c \<in> set base16"
  shows "is_bits (hexToBinary h) \<and> length (hexToBinary h) = 4 * length h
         \<and> binaryToHex (hexToBinary h) = h"
  using assms
proof (induction h)
  case Nil
  show ?case by (simp add: hexToBinary_simps binaryToHex_Nil is_bits_def)
next
  case (Cons c h)
  then have "c \<in> set base16" by simp
  then obtain r where r: "hexBinaryMap c = Some r" "length r = 4" "is_bits r"
    "binaryHexMap r = Some [c]"
    by (rule hex_symbol_bits)
  from Cons have IH: "is_bits (hexToBinary h) \<and> length (hexToBinary h) = 4 * length h
         \<and> binaryToHex (hexToBinary h) = h" by simp
  show ?case
    using r IH by (simp add: hexToBinary_simps is_bits_append binaryToHex_chunk)
qed

lemma binaryToHex_bits:
  assumes "is_bits v" and "length v = 4 * n"
  shows "(\<forall>c\<in>set (binaryToHex v). c \<in> set base16) \<and> length (binaryToHex v) = n
         \<and> hexToBinary (binaryToHex v) = v"
  using assms
proof (induction n arbitrary: v)
  case 0
  then show ?case by (simp add: binaryToHex_Nil hexToBinary_simps)
next
  case (Suc n)
  let ?r = "take 4 v" and ?w = "drop 4 v"
  have v: "v = ?r @ ?w" by simp
  have r: "length ?r = 4" "is_bits ?r" and w: "length ?w = 4 * n" "is_bits ?w"
    using Suc.prems is_bits_append [of ?r ?w] by simp_all
  from r obtain c where c: "binaryHexMap ?r = Some [c]" "c \<in> set base16"
    "hexBinaryMap c = Some ?r"
    by (rule bits_symbol_hex)
  have "binaryToHex v = c # binaryToHex ?w"
    using binaryToHex_chunk [OF r(1), of ?w] c(1) by simp
  with Suc.IH [OF w(2,1)] c(2,3) show ?case
    by (simp add: hexToBinary_simps)
qed

section \<open>Binary numerals\<close>

lemma bin_value_snoc: "bin_value (s @ [c]) = 2 * bin_value s + (if c = CHR ''1'' then 1 else 0)"
  by (simp add: bin_value_def)

lemma bin_value_Nil: "bin_value [] = 0"
  by (simp add: bin_value_def)

lemma bin_value_less: "bin_value s < 2 ^ length s"
  by (induction s rule: rev_induct) (auto simp: bin_value_snoc bin_value_Nil)

lemma bin_value_append: "bin_value (s @ t) = bin_value s * 2 ^ length t + bin_value t"
proof (induction t rule: rev_induct)
  case Nil
  show ?case by (simp add: bin_value_Nil)
next
  case (snoc c t)
  have "bin_value (s @ t @ [c]) = bin_value ((s @ t) @ [c])" by simp
  also have "\<dots> = 2 * bin_value (s @ t) + (if c = CHR ''1'' then 1 else 0)"
    by (rule bin_value_snoc)
  finally show ?case
    by (simp add: snoc bin_value_snoc algebra_simps)
qed

lemma bin_value_replicate0: "bin_value (replicate k (CHR ''0'')) = 0"
  by (induction k) (simp_all add: bin_value_Nil bin_value_snoc replicate_append_same [symmetric])

lemma bin_value_pad: "bin_value (replicate k (CHR ''0'') @ s) = bin_value s"
  by (simp add: bin_value_append bin_value_replicate0)

lemma bin_value_Cons:
  "bin_value (c # s) = (if c = CHR ''1'' then 1 else 0) * 2 ^ length s + bin_value s"
  using bin_value_append [of "[c]" s] bin_value_snoc [of "[]" c] by (simp add: bin_value_Nil)

lemma bin_value_inj:
  assumes "length s = length t" and "is_bits s" and "is_bits t" and "bin_value s = bin_value t"
  shows "s = t"
  using assms
proof (induction s t rule: list_induct2)
  case Nil
  show ?case by simp
next
  case (Cons x xs y ys)
  have lx: "bin_value xs < 2 ^ length xs" and ly: "bin_value ys < 2 ^ length xs"
    using bin_value_less [of xs] bin_value_less [of ys] Cons.hyps by simp_all
  have d: "x = CHR ''0'' \<or> x = CHR ''1''" "y = CHR ''0'' \<or> y = CHR ''1''"
    using Cons.prems by (auto simp: is_bits_def is_bin_digit_def)
  have "x = y \<and> bin_value xs = bin_value ys"
    using Cons.prems(3) lx ly d Cons.hyps by (auto simp: bin_value_Cons)
  moreover have "is_bits xs" "is_bits ys"
    using Cons.prems by (simp_all add: is_bits_def)
  ultimately show ?case using Cons.IH by simp
qed

lemma bin_digits_props:
  "is_bits (bin_digits n) \<and> bin_value (bin_digits n) = n \<and> bin_digits n \<noteq> []"
proof (induction n rule: bin_digits.induct)
  case (1 n)
  show ?case
  proof (cases "n < 2")
    case True
    have e: "bin_digits n = [if n = 1 then CHR ''1'' else CHR ''0'']"
      using True by (subst bin_digits.simps) simp
    from True have "n = 0 \<or> n = 1" by arith
    then show ?thesis
      unfolding e by (auto simp: is_bits_def is_bin_digit_def bin_value_Cons bin_value_Nil)
  next
    case False
    with 1 have IH: "is_bits (bin_digits (n div 2)) \<and> bin_value (bin_digits (n div 2)) = n div 2
                     \<and> bin_digits (n div 2) \<noteq> []"
      by blast
    define d where "d = (if n mod 2 = 1 then CHR ''1'' else CHR ''0'')"
    have e: "bin_digits n = bin_digits (n div 2) @ [d]"
      using False unfolding d_def by (subst bin_digits.simps) simp
    have b: "is_bits [d]" by (simp add: is_bits_def is_bin_digit_def d_def)
    have v: "2 * (n div 2) + (if d = CHR ''1'' then 1 else 0) = n"
      unfolding d_def by (cases "n mod 2 = 1") (simp_all, presburger+)
    have "bin_value (bin_digits n) = n"
      unfolding e bin_value_snoc using IH v by simp
    moreover have "is_bits (bin_digits n)"
      unfolding e is_bits_append using IH b by simp
    ultimately show ?thesis unfolding e by simp
  qed
qed

lemma length_bin_digits:
  assumes "n < 2 ^ k" and "0 < k"
  shows "length (bin_digits n) \<le> k"
  using assms
proof (induction n arbitrary: k rule: bin_digits.induct)
  case (1 n)
  show ?case
  proof (cases "n < 2")
    case True
    then show ?thesis using "1.prems" by (subst bin_digits.simps) simp
  next
    case False
    obtain j where k: "k = Suc j" using "1.prems"(2) by (cases k) auto
    have j: "0 < j"
    proof (rule ccontr)
      assume "\<not> 0 < j"
      then have "k = 1" using k by simp
      with "1.prems"(1) False show False by simp
    qed
    have "n div 2 < 2 ^ j" using "1.prems"(1) k by simp
    then have "length (bin_digits (n div 2)) \<le> j"
      using "1.IH" False j by simp
    then show ?thesis
      using False k by (subst bin_digits.simps) simp
  qed
qed

lemma is_bits_replicate0: "is_bits (replicate k (CHR ''0''))"
  by (simp add: is_bits_def is_bin_digit_def)

lemma bits_n_props:
  assumes "n < 2 ^ k" and "0 < k"
  shows "length (bits_n k n) = k" and "is_bits (bits_n k n)" and "bin_value (bits_n k n) = n"
proof -
  have l: "length (bin_digits n) \<le> k" using assms by (rule length_bin_digits)
  have p: "is_bits (bin_digits n)" "bin_value (bin_digits n) = n"
    using bin_digits_props [of n] by blast+
  show "length (bits_n k n) = k"
    unfolding bits_n_def using l by simp
  show "is_bits (bits_n k n)"
    unfolding bits_n_def is_bits_append using p(1) is_bits_replicate0 by blast
  show "bin_value (bits_n k n) = n"
    unfolding bits_n_def bin_value_pad by (rule p(2))
qed

lemma bits_n_bin_value:
  assumes "is_bits s" and "s \<noteq> []"
  shows "bits_n (length s) (bin_value s) = s"
proof -
  have k: "0 < length s" using assms(2) by simp
  have lt: "bin_value s < 2 ^ length s" by (rule bin_value_less)
  show ?thesis
    using bits_n_props(1-3) [OF lt k] assms(1)
    by (intro bin_value_inj) simp_all
qed

lemma parseInt2_bits:
  assumes "is_bits s" and "s \<noteq> []"
  shows "parseInt2 s = Some (int (bin_value s))"
proof -
  obtain c t where s: "s = c # t" using assms(2) by (cases s) auto
  have c: "c = CHR ''0'' \<or> c = CHR ''1''"
    using assms(1) by (auto simp: s is_bits_def is_bin_digit_def)
  have sp: "\<not> is_space c" using c by (auto simp: is_space_def)
  have tw: "takeWhile is_bin_digit s = s"
    using assms(1) by (simp add: is_bits_def takeWhile_eq_all_conv)
  have dw: "dropWhile is_space s = s" using sp by (simp add: s)
  have sg: "hd s \<noteq> CHR ''-''" "hd s \<noteq> CHR ''+''" using c by (auto simp: s)
  show ?thesis
    unfolding parseInt2_def Let_def dw using sg assms(2) by (simp add: tw)
qed

section \<open>One step to a neighbour\<close>

lemma length_zip_bits: "length a = length b \<Longrightarrow> length (zip_bits a b) = 2 * length a"
  by (induction a b rule: list_induct2) simp_all

lemma is_bits_zip:
  "length a = length b \<Longrightarrow> is_bits a \<Longrightarrow> is_bits b \<Longrightarrow> is_bits (zip_bits a b)"
  by (induction a b rule: list_induct2) (simp_all add: is_bits_def)

lemma even_unzip:
  assumes "length v = 2 * k" and "is_bits v"
  shows "\<exists>a b. v = zip_bits a b \<and> length a = k \<and> length b = k \<and> is_bits a \<and> is_bits b"
  using assms
proof (induction k arbitrary: v)
  case 0
  then show ?case by (intro exI [of _ "[]"]) (simp add: is_bits_def)
next
  case (Suc k)
  then obtain x y w where v: "v = x # y # w"
    by (cases v; simp) (rename_tac w, case_tac w; simp)
  with Suc.prems have "length w = 2 * k" "is_bits w" by (simp_all add: is_bits_def)
  then obtain a b where ab: "w = zip_bits a b" "length a = k" "length b = k" "is_bits a" "is_bits b"
    using Suc.IH by blast
  have "v = zip_bits (x # a) (y # b)" by (simp add: v ab(1))
  moreover have "is_bits (x # a)" "is_bits (y # b)"
    using ab(4,5) Suc.prems(2) by (simp_all add: v is_bits_def)
  ultimately show ?case using ab(2,3)
    by (intro exI [of _ "x # a"] exI [of _ "y # b"]) simp
qed

lemma splits_to_exists:
  assumes "\<forall>c\<in>set h. c \<in> set base16"
  shows "\<exists>a b. splits_to h a b"
proof -
  have v: "is_bits (hexToBinary h)" "length (hexToBinary h) = 2 * (2 * length h)"
    using hexToBinary_valid [OF assms] by simp_all
  from even_unzip [OF v(2,1)] obtain a b
    where "hexToBinary h = zip_bits a b" "length a = 2 * length h" "length b = 2 * length h"
      "is_bits a" "is_bits b"
    by blast
  with assms have "splits_to h a b" by (simp add: splits_to_def)
  then show ?thesis by blast
qed

lemma splits_to_unique:
  assumes "splits_to h a b" and "splits_to h' a b"
  shows "h = h'"
proof -
  have a: "\<forall>c\<in>set h. c \<in> set base16" "\<forall>c\<in>set h'. c \<in> set base16"
    and z: "hexToBinary h = zip_bits a b" "hexToBinary h' = zip_bits a b"
    using assms by (simp_all add: splits_to_def)
  have "h = binaryToHex (hexToBinary h)"
    using hexToBinary_valid [OF a(1)] by simp
  also have "\<dots> = binaryToHex (hexToBinary h')"
    by (simp only: z)
  also have "\<dots> = h'"
    using hexToBinary_valid [OF a(2)] by simp
  finally show ?thesis .
qed

lemma splits_to_split:
  assumes "splits_to h a b"
  shows "split_bits (hexToBinary h) = (a, b)"
  using assms split_bits_zip [of a b] unfolding splits_to_def by simp

lemma splits_to_nums:
  assumes "splits_to h a b" and "h \<noteq> []"
  shows "lngNum_of h = Some (int (bin_value a))" and "latNum_of h = Some (int (bin_value b))"
proof -
  have ne: "a \<noteq> []" "b \<noteq> []" and bits: "is_bits a" "is_bits b"
    using assms unfolding splits_to_def by auto
  show "lngNum_of h = Some (int (bin_value a))"
    unfolding lngNum_of_def splits_to_split [OF assms(1)] using bits(1) ne(1)
    by (simp add: parseInt2_bits)
  show "latNum_of h = Some (int (bin_value b))"
    unfolding latNum_of_def splits_to_split [OF assms(1)] using bits(2) ne(2)
    by (simp add: parseInt2_bits)
qed

lemma toString2_succ: "toString2 (num_add (Some (int n)) 1) = bin_digits (n + 1)"
proof -
  have "nat (int n + 1) = n + 1" by simp
  then show ?thesis by (simp add: toString2_def num_add_def)
qed

lemma toString2_pred: "0 < n \<Longrightarrow> toString2 (num_add (Some (int n)) (- 1)) = bin_digits (n - 1)"
proof -
  assume "0 < n"
  then have "nat (int n - 1) = n - 1" "\<not> int n - 1 < 0" by simp_all
  then show ?thesis by (simp add: toString2_def num_add_def)
qed

lemma adjacent_unfold:
  assumes "splits_to h a b" and "h \<noteq> []"
  shows "adjacent h North
           = binaryToHex (interleave a (toString2 (num_add (Some (int (bin_value b))) 1)))"
    and "adjacent h East
           = binaryToHex (interleave (toString2 (num_add (Some (int (bin_value a))) 1)) b)"
    and "adjacent h West
           = binaryToHex (interleave (toString2 (num_add (Some (int (bin_value a))) (- 1))) b)"
    and "adjacent h South
           = binaryToHex (interleave a (toString2 (num_add (Some (int (bin_value b))) (- 1))))"
proof -
  have ne: "a \<noteq> []" "b \<noteq> []" and bits: "is_bits a" "is_bits b"
    using assms unfolding splits_to_def by auto
  have p: "parseInt2 a = Some (int (bin_value a))" "parseInt2 b = Some (int (bin_value b))"
    using bits ne by (simp_all add: parseInt2_bits)
  show "adjacent h North
           = binaryToHex (interleave a (toString2 (num_add (Some (int (bin_value b))) 1)))"
    by (simp add: adjacent_def Let_def splits_to_split [OF assms(1)] p)
  show "adjacent h East
           = binaryToHex (interleave (toString2 (num_add (Some (int (bin_value a))) 1)) b)"
    by (simp add: adjacent_def Let_def splits_to_split [OF assms(1)] p)
  show "adjacent h West
           = binaryToHex (interleave (toString2 (num_add (Some (int (bin_value a))) (- 1))) b)"
    by (simp add: adjacent_def Let_def splits_to_split [OF assms(1)] p)
  show "adjacent h South
           = binaryToHex (interleave a (toString2 (num_add (Some (int (bin_value b))) (- 1))))"
    by (simp add: adjacent_def Let_def splits_to_split [OF assms(1)] p)
qed

lemma interleave_digits_left:
  assumes "n < 2 ^ length b" and "0 < length b"
  shows "interleave (bin_digits n) b = zip_bits (bits_n (length b) n) b"
proof -
  have "length (bin_digits n) \<le> length b" using assms by (rule length_bin_digits)
  then show ?thesis by (simp add: interleave_zip bits_n_def)
qed

lemma interleave_digits_right:
  assumes "n < 2 ^ length a" and "0 < length a"
  shows "interleave a (bin_digits n) = zip_bits a (bits_n (length a) n)"
proof -
  have "length (bin_digits n) \<le> length a" using assms by (rule length_bin_digits)
  then show ?thesis by (simp add: interleave_zip bits_n_def)
qed

lemma splits_to_zip:
  assumes "length a = 2 * L" and "length b = 2 * L" and "is_bits a" and "is_bits b"
  shows "splits_to (binaryToHex (zip_bits a b)) a b \<and> length (binaryToHex (zip_bits a b)) = L"
proof -
  have eq: "length a = length b" using assms by simp
  have v: "is_bits (zip_bits a b)" "length (zip_bits a b) = 4 * L"
    using is_bits_zip [OF eq assms(3,4)] length_zip_bits [OF eq] assms(1) by simp_all
  from binaryToHex_bits [OF v] assms show ?thesis
    unfolding splits_to_def by simp
qed

lemma splits_to_lengths:
  assumes "splits_to h a b" and "h \<noteq> []"
  shows "length a = 2 * length h" and "length b = 2 * length h" and "0 < length a"
    and "0 < length b" and "is_bits a" and "is_bits b"
  using assms unfolding splits_to_def by auto

lemma adjacent_East:
  assumes "splits_to h a b" and "h \<noteq> []" and "bin_value a + 1 < 2 ^ length a"
  shows "splits_to (adjacent h East) (bits_n (length a) (bin_value a + 1)) b"
    and "length (adjacent h East) = length h"
proof -
  note l = splits_to_lengths [OF assms(1,2)]
  have lt: "bin_value a + 1 < 2 ^ length b" using assms(3) l(1,2) by simp
  have e: "adjacent h East = binaryToHex (zip_bits (bits_n (length a) (bin_value a + 1)) b)"
    using interleave_digits_left [OF lt l(4)] l(1,2)
    by (simp add: adjacent_unfold(2) [OF assms(1,2)] toString2_succ)
  have n: "length (bits_n (length a) (bin_value a + 1)) = 2 * length h"
    "is_bits (bits_n (length a) (bin_value a + 1))"
    using bits_n_props(1,2) [OF assms(3) l(3)] l(1) by simp_all
  from splits_to_zip [OF n(1) l(2) n(2) l(6)]
  show "splits_to (adjacent h East) (bits_n (length a) (bin_value a + 1)) b"
    and "length (adjacent h East) = length h"
    unfolding e by blast+
qed

lemma adjacent_West:
  assumes "splits_to h a b" and "h \<noteq> []" and "0 < bin_value a"
  shows "splits_to (adjacent h West) (bits_n (length a) (bin_value a - 1)) b"
    and "length (adjacent h West) = length h"
proof -
  note l = splits_to_lengths [OF assms(1,2)]
  have lt0: "bin_value a - 1 < 2 ^ length a"
    using bin_value_less [of a] by simp
  have lt: "bin_value a - 1 < 2 ^ length b" using lt0 l(1,2) by simp
  have e: "adjacent h West = binaryToHex (zip_bits (bits_n (length a) (bin_value a - 1)) b)"
    using interleave_digits_left [OF lt l(4)] l(1,2)
    by (simp add: adjacent_unfold(3) [OF assms(1,2)] toString2_pred [OF assms(3)])
  have n: "length (bits_n (length a) (bin_value a - 1)) = 2 * length h"
    "is_bits (bits_n (length a) (bin_value a - 1))"
    using bits_n_props(1,2) [OF lt0 l(3)] l(1) by simp_all
  from splits_to_zip [OF n(1) l(2) n(2) l(6)]
  show "splits_to (adjacent h West) (bits_n (length a) (bin_value a - 1)) b"
    and "length (adjacent h West) = length h"
    unfolding e by blast+
qed

lemma adjacent_North:
  assumes "splits_to h a b" and "h \<noteq> []" and "bin_value b + 1 < 2 ^ length b"
  shows "splits_to (adjacent h North) a (bits_n (length b) (bin_value b + 1))"
    and "length (adjacent h North) = length h"
proof -
  note l = splits_to_lengths [OF assms(1,2)]
  have lt: "bin_value b + 1 < 2 ^ length a" using assms(3) l(1,2) by simp
  have e: "adjacent h North = binaryToHex (zip_bits a (bits_n (length b) (bin_value b + 1)))"
    using interleave_digits_right [OF lt l(3)] l(1,2)
    by (simp add: adjacent_unfold(1) [OF assms(1,2)] toString2_succ)
  have n: "length (bits_n (length b) (bin_value b + 1)) = 2 * length h"
    "is_bits (bits_n (length b) (bin_value b + 1))"
    using bits_n_props(1,2) [OF assms(3) l(4)] l(2) by simp_all
  from splits_to_zip [OF l(1) n(1) l(5) n(2)]
  show "splits_to (adjacent h North) a (bits_n (length b) (bin_value b + 1))"
    and "length (adjacent h North) = length h"
    unfolding e by blast+
qed

lemma adjacent_South:
  assumes "splits_to h a b" and "h \<noteq> []" and "0 < bin_value b"
  shows "splits_to (adjacent h South) a (bits_n (length b) (bin_value b - 1))"
    and "length (adjacent h South) = length h"
proof -
  note l = splits_to_lengths [OF assms(1,2)]
  have lt0: "bin_value b - 1 < 2 ^ length b"
    using bin_value_less [of b] by simp
  have lt: "bin_value b - 1 < 2 ^ length a" using lt0 l(1,2) by simp
  have e: "adjacent h South = binaryToHex (zip_bits a (bits_n (length b) (bin_value b - 1)))"
    using interleave_digits_right [OF lt l(3)] l(1,2)
    by (simp add: adjacent_unfold(4) [OF assms(1,2)] toString2_pred [OF assms(3)])
  have n: "length (bits_n (length b) (bin_value b - 1)) = 2 * length h"
    "is_bits (bits_n (length b) (bin_value b - 1))"
    using bits_n_props(1,2) [OF lt0 l(4)] l(2) by simp_all
  from splits_to_zip [OF l(1) n(1) l(5) n(2)]
  show "splits_to (adjacent h South) a (bits_n (length b) (bin_value b - 1))"
    and "length (adjacent h South) = length h"
    unfolding e by blast+
qed

section \<open>Neighbours\<close>

lemma interiorD:
  assumes "splits_to h a b" and "h \<noteq> []" and "interior h"
  shows "0 < bin_value a" and "bin_value a + 1 < 2 ^ length a"
    and "0 < bin_value b" and "bin_value b + 1 < 2 ^ length b"
proof -
  note l = splits_to_lengths [OF assms(1,2)]
  have i: "0 < int (bin_value a)" "int (bin_value a) < 2 ^ (2 * length h) - 1"
    "0 < int (bin_value b)" "int (bin_value b) < 2 ^ (2 * length h) - 1"
    using assms(3) by (simp_all add: interior_def splits_to_nums [OF assms(1,2)])
  show "0 < bin_value a" "0 < bin_value b" using i(1,3) by simp_all
  have "int (bin_value a + 1) < int (2 ^ (2 * length h))" using i(2) by simp
  then show "bin_value a + 1 < 2 ^ length a"
    unfolding of_nat_less_iff l(1) .
  have "int (bin_value b + 1) < int (2 ^ (2 * length h))" using i(4) by simp
  then show "bin_value b + 1 < 2 ^ length b"
    unfolding of_nat_less_iff l(2) .
qed

lemma valid_geohashD:
  "valid_geohash h \<Longrightarrow> h \<noteq> [] \<and> length h \<le> 12 \<and> (\<forall>c\<in>set h. c \<in> set base16)"
  by (simp add: valid_geohash_def)

lemma splits_to_valid:
  assumes "splits_to v a b" and "length v = length h" and "valid_geohash h"
  shows "valid_geohash v"
proof -
  have "\<forall>c\<in>set v. c \<in> set base16" using assms(1) by (simp add: splits_to_def)
  moreover have "v \<noteq> []" "length v \<le> 12"
    using assms(2,3) valid_geohashD [of h] by auto
  ultimately show ?thesis by (simp add: valid_geohash_def)
qed

lemma bits_n_value:
  assumes "n < 2 ^ k" and "0 < k"
  shows "bin_value (bits_n k n) = n" and "length (bits_n k n) = k"
  using bits_n_props [OF assms] by simp_all

text \<open>
  C4. For a geohash of one to twelve symbols whose longitude and latitude integers are
  neither zero nor the largest number of their digits, going east and then west, and
  going north and then south, gives the geohash back.
\<close>

theorem adjacent_inverse:
  assumes "valid_geohash h" and "interior h"
  shows "adjacent (adjacent h East) West = h \<and> adjacent (adjacent h North) South = h"
proof -
  have ne: "h \<noteq> []" and al: "\<forall>c\<in>set h. c \<in> set base16"
    using valid_geohashD [OF assms(1)] by blast+
  from splits_to_exists [OF al] obtain a b where s: "splits_to h a b" by blast
  note l = splits_to_lengths [OF s ne]
  note i = interiorD [OF s ne assms(2)]
  let ?a = "bits_n (length a) (bin_value a + 1)"
  let ?b = "bits_n (length b) (bin_value b + 1)"
  have e: "splits_to (adjacent h East) ?a b" "length (adjacent h East) = length h"
    using adjacent_East [OF s ne i(2)] by blast+
  have ene: "adjacent h East \<noteq> []" using e(2) ne by auto
  have av: "bin_value ?a = bin_value a + 1" "length ?a = length a"
    using bits_n_value [OF i(2) l(3)] by simp_all
  have an: "a \<noteq> []" and bn: "b \<noteq> []" using l(3,4) by auto
  have "0 < bin_value ?a" unfolding av by simp
  then have "splits_to (adjacent (adjacent h East) West) (bits_n (length ?a) (bin_value ?a - 1)) b"
    by (rule adjacent_West(1) [OF e(1) ene])
  then have "splits_to (adjacent (adjacent h East) West) (bits_n (length a) (bin_value a)) b"
    unfolding av by simp
  then have "splits_to (adjacent (adjacent h East) West) a b"
    unfolding bits_n_bin_value [OF l(5) an] .
  then have ew: "adjacent (adjacent h East) West = h"
    using s by (rule splits_to_unique)
  have n: "splits_to (adjacent h North) a ?b" "length (adjacent h North) = length h"
    using adjacent_North [OF s ne i(4)] by blast+
  have nne: "adjacent h North \<noteq> []" using n(2) ne by auto
  have bv: "bin_value ?b = bin_value b + 1" "length ?b = length b"
    using bits_n_value [OF i(4) l(4)] by simp_all
  have "0 < bin_value ?b" unfolding bv by simp
  then have "splits_to (adjacent (adjacent h North) South) a (bits_n (length ?b) (bin_value ?b - 1))"
    by (rule adjacent_South(1) [OF n(1) nne])
  then have "splits_to (adjacent (adjacent h North) South) a (bits_n (length b) (bin_value b))"
    unfolding bv by simp
  then have "splits_to (adjacent (adjacent h North) South) a b"
    unfolding bits_n_bin_value [OF l(6) bn] .
  then have ns: "adjacent (adjacent h North) South = h"
    using s by (rule splits_to_unique)
  from ew ns show ?thesis by blast
qed

lemma interior_47: "valid_geohash ''47'' \<and> interior ''47''"
proof -
  have "lngNum_of ''47'' = Some 1" "latNum_of ''47'' = Some 11" by code_simp+
  then have "interior ''47''" by (simp add: interior_def)
  moreover have "valid_geohash ''47''" by code_simp
  ultimately show ?thesis by blast
qed

theorem adjacent_inverse_witness:
  "valid_geohash ''47'' \<and> interior ''47''
   \<and> adjacent (adjacent ''47'' East) West = ''47''
   \<and> adjacent (adjacent ''47'' North) South = ''47''"
  using adjacent_inverse [of "''47''"] interior_47 by blast

text \<open>
  C3 as stated fails at the border of the working domain: the geohash \<open>0\<close> has the
  longitude integer 0, \<^verbatim>\<open>adjacent\<close> writes \<open>-1\<close> as the digits \<^verbatim>\<open>-1\<close>, and the entry
  \<open>w\<close> of \<^verbatim>\<open>neighbours("0")\<close> is the text \<^verbatim>\<open>undefined\<close>.
\<close>

theorem neighbours_border_counterexample:
  "valid_geohash ''0'' \<and> map_of (neighbours ''0'') ''w'' = Some ''undefined''
   \<and> \<not> valid_geohash ''undefined'' \<and> length ''undefined'' \<noteq> length ''0''"
proof -
  have "adjacent ''0'' West = ''undefined''" by code_simp
  then have "map_of (neighbours ''0'') ''w'' = Some ''undefined''"
    by (simp add: neighbours_def)
  moreover have "valid_geohash ''0''" "\<not> valid_geohash ''undefined''" by code_simp+
  ultimately show ?thesis by simp
qed

text \<open>
  C3, amended. \<^verbatim>\<open>neighbours\<close> always returns the eight entries keyed n, ne, e, se, s, sw,
  w, nw. For a geohash of one to twelve symbols whose longitude and latitude integers are
  neither zero nor the largest number of their digits, every entry is a geohash of the
  same length.
\<close>

theorem neighbours_interior:
  "map fst (neighbours h) = [''n'', ''ne'', ''e'', ''se'', ''s'', ''sw'', ''w'', ''nw'']
   \<and> (valid_geohash h \<and> interior h \<longrightarrow>
        (\<forall>v\<in>set (map snd (neighbours h)). valid_geohash v \<and> length v = length h))"
proof (intro conjI impI)
  show "map fst (neighbours h) = [''n'', ''ne'', ''e'', ''se'', ''s'', ''sw'', ''w'', ''nw'']"
    by (simp add: neighbours_def)
next
  assume vi: "valid_geohash h \<and> interior h"
  then have v: "valid_geohash h" and int: "interior h" by blast+
  have ne: "h \<noteq> []" and al: "\<forall>c\<in>set h. c \<in> set base16"
    using valid_geohashD [OF v] by blast+
  from splits_to_exists [OF al] obtain a b where s: "splits_to h a b" by blast
  note l = splits_to_lengths [OF s ne]
  note i = interiorD [OF s ne int]
  let ?n = "adjacent h North" and ?e = "adjacent h East"
  let ?w = "adjacent h West" and ?s = "adjacent h South"
  let ?bu = "bits_n (length b) (bin_value b + 1)" and ?bd = "bits_n (length b) (bin_value b - 1)"
  have n: "splits_to ?n a ?bu" "length ?n = length h"
    using adjacent_North [OF s ne i(4)] by blast+
  have e: "splits_to ?e (bits_n (length a) (bin_value a + 1)) b" "length ?e = length h"
    using adjacent_East [OF s ne i(2)] by blast+
  have w: "splits_to ?w (bits_n (length a) (bin_value a - 1)) b" "length ?w = length h"
    using adjacent_West [OF s ne i(1)] by blast+
  have so: "splits_to ?s a ?bd" "length ?s = length h"
    using adjacent_South [OF s ne i(3)] by blast+
  have nne: "?n \<noteq> []" and sne: "?s \<noteq> []" using n(2) so(2) ne by auto
  have "splits_to (adjacent ?n East) (bits_n (length a) (bin_value a + 1)) ?bu"
    "length (adjacent ?n East) = length ?n"
    using adjacent_East [OF n(1) nne i(2)] by blast+
  then have nev: "valid_geohash (adjacent ?n East)" "length (adjacent ?n East) = length h"
    using splits_to_valid [OF _ _ v] n(2) by simp_all
  have "splits_to (adjacent ?n West) (bits_n (length a) (bin_value a - 1)) ?bu"
    "length (adjacent ?n West) = length ?n"
    using adjacent_West [OF n(1) nne i(1)] by blast+
  then have nwv: "valid_geohash (adjacent ?n West)" "length (adjacent ?n West) = length h"
    using splits_to_valid [OF _ _ v] n(2) by simp_all
  have "splits_to (adjacent ?s East) (bits_n (length a) (bin_value a + 1)) ?bd"
    "length (adjacent ?s East) = length ?s"
    using adjacent_East [OF so(1) sne i(2)] by blast+
  then have sev: "valid_geohash (adjacent ?s East)" "length (adjacent ?s East) = length h"
    using splits_to_valid [OF _ _ v] so(2) by simp_all
  have "splits_to (adjacent ?s West) (bits_n (length a) (bin_value a - 1)) ?bd"
    "length (adjacent ?s West) = length ?s"
    using adjacent_West [OF so(1) sne i(1)] by blast+
  then have swv: "valid_geohash (adjacent ?s West)" "length (adjacent ?s West) = length h"
    using splits_to_valid [OF _ _ v] so(2) by simp_all
  have c: "valid_geohash ?n" "valid_geohash ?e" "valid_geohash ?w" "valid_geohash ?s"
    using splits_to_valid [OF n v] splits_to_valid [OF e v] splits_to_valid [OF w v]
      splits_to_valid [OF so v] by blast+
  show "\<forall>v\<in>set (map snd (neighbours h)). valid_geohash v \<and> length v = length h"
    using c n(2) e(2) w(2) so(2) nev nwv sev swv by (simp add: neighbours_def)
qed

theorem neighbours_interior_witness:
  "valid_geohash ''47'' \<and> interior ''47''
   \<and> map fst (neighbours ''47'') = [''n'', ''ne'', ''e'', ''se'', ''s'', ''sw'', ''w'', ''nw'']
   \<and> list_all (\<lambda>v. valid_geohash v \<and> length v = length ''47'') (map snd (neighbours ''47''))"
  using neighbours_interior [of "''47''"] interior_47 unfolding list_all_iff by blast

section \<open>Decoding and encoding again\<close>

lemma walk_step_narrows:
  assumes "latMin w < latMax w" and "lonMin w < lonMax w"
  shows "latMin (walk_step b w) < latMax (walk_step b w)"
    and "lonMin (walk_step b w) < lonMax (walk_step b w)"
    and "latMin w \<le> latMin (walk_step b w)" and "latMax (walk_step b w) \<le> latMax w"
    and "lonMin w \<le> lonMin (walk_step b w)" and "lonMax (walk_step b w) \<le> lonMax w"
  using assms by (auto simp: walk_step_def)

lemma walk_bits_narrows:
  assumes "latMin w < latMax w" and "lonMin w < lonMax w"
  shows "latMin w \<le> latMin (walk_bits bs w) \<and> latMax (walk_bits bs w) \<le> latMax w
         \<and> lonMin w \<le> lonMin (walk_bits bs w) \<and> lonMax (walk_bits bs w) \<le> lonMax w"
  using assms
proof (induction bs arbitrary: w)
  case Nil
  show ?case by (simp add: walk_bits_def)
next
  case (Cons b bs)
  note n = walk_step_narrows [OF Cons.prems, of b]
  have "latMin (walk_step b w) \<le> latMin (walk_bits bs (walk_step b w))
        \<and> latMax (walk_bits bs (walk_step b w)) \<le> latMax (walk_step b w)
        \<and> lonMin (walk_step b w) \<le> lonMin (walk_bits bs (walk_step b w))
        \<and> lonMax (walk_bits bs (walk_step b w)) \<le> lonMax (walk_step b w)"
    using n(1,2) by (rule Cons.IH)
  moreover have "walk_bits (b # bs) w = walk_bits bs (walk_step b w)"
    by (simp add: walk_bits_def)
  ultimately show ?case using n(3-6) by simp
qed

lemma enc_choice_inverse:
  assumes "latMin w < latMax w" and "lonMin w < lonMax w"
    and "latMin (walk_step b w) < x" and "x \<le> latMax (walk_step b w)"
    and "lonMin (walk_step b w) < y" and "y \<le> lonMax (walk_step b w)"
  shows "enc_choice (Fin x) (Fin y) w = b"
  using assms by (auto simp: walk_step_def enc_choice_def split: if_splits)

lemma enc_bits_inverse:
  assumes "latMin w < latMax w" and "lonMin w < lonMax w"
    and "latMin (walk_bits bs w) < x" and "x \<le> latMax (walk_bits bs w)"
    and "lonMin (walk_bits bs w) < y" and "y \<le> lonMax (walk_bits bs w)"
  shows "enc_bits (Fin x) (Fin y) (length bs) w = bs"
  using assms
proof (induction bs arbitrary: w)
  case Nil
  show ?case by simp
next
  case (Cons b bs)
  let ?v = "walk_step b w"
  note n = walk_step_narrows(1,2) [OF Cons.prems(1,2), of b]
  have e: "walk_bits (b # bs) w = walk_bits bs ?v"
    by (simp add: walk_bits_def)
  note m = walk_bits_narrows [OF n, of bs]
  have "latMin ?v < x" "x \<le> latMax ?v" "lonMin ?v < y" "y \<le> lonMax ?v"
    using Cons.prems(3-6) m unfolding e by linarith+
  then have c: "enc_choice (Fin x) (Fin y) w = b"
    by (rule enc_choice_inverse [OF Cons.prems(1,2)])
  have "enc_bits (Fin x) (Fin y) (length bs) ?v = bs"
    using n Cons.prems(3-6) unfolding e by (rule Cons.IH)
  then show ?case by (simp add: c)
qed

lemma round_half_even_err: "\<bar>of_int (round_half_even y) - y\<bar> \<le> 1 / 2"
proof -
  have f: "of_int \<lfloor>y\<rfloor> \<le> y" "y < of_int \<lfloor>y\<rfloor> + 1" by linarith+
  show ?thesis
    unfolding round_half_even_def Let_def using f by (simp add: abs_le_iff)
qed

lemma bitlen_le: "n < 2 ^ k \<Longrightarrow> bitlen n \<le> k"
proof (induction n arbitrary: k rule: bitlen.induct)
  case (1 n)
  show ?case
  proof (cases "n = 0")
    case True
    then show ?thesis by (subst bitlen.simps) simp
  next
    case False
    then obtain j where k: "k = Suc j" using "1.prems" by (cases k) auto
    have "n div 2 < 2 ^ j" using "1.prems" k by simp
    then have "bitlen (n div 2) \<le> j" using "1.IH" False by simp
    then show ?thesis using False k by (subst bitlen.simps) simp
  qed
qed

lemma bitlen_pos: "0 < n \<Longrightarrow> 0 < bitlen n"
  by (subst bitlen.simps) simp

lemma ilog2_range:
  assumes "1 \<le> x" and "x < 128"
  shows "0 \<le> ilog2 x" and "ilog2 x \<le> 6"
proof -
  have lo: "1 \<le> \<lfloor>x\<rfloor>" using assms(1) by (simp add: le_floor_iff)
  have hi: "\<lfloor>x\<rfloor> < 128" using assms(2) by (simp add: floor_less_iff)
  have "nat \<lfloor>x\<rfloor> < 128" using lo hi by linarith
  then have n: "0 < nat \<lfloor>x\<rfloor>" "nat \<lfloor>x\<rfloor> < 2 ^ 7" using lo by simp_all
  have "0 < bitlen (nat \<lfloor>x\<rfloor>)" "bitlen (nat \<lfloor>x\<rfloor>) \<le> 7"
    using bitlen_pos [OF n(1)] bitlen_le [OF n(2)] by simp_all
  then show "0 \<le> ilog2 x" "ilog2 x \<le> 6"
    using assms(1) by (simp_all add: ilog2_def)
qed

lemma to_double_err:
  assumes "1 \<le> x" and "x < 128"
  shows "\<bar>to_double x - x\<bar> \<le> 1 / 2 ^ 47"
proof -
  define k where "k = nat (52 - ilog2 x)"
  have r: "0 \<le> ilog2 x" "ilog2 x \<le> 6" using assms by (rule ilog2_range)+
  have k: "46 \<le> k" using r by (simp add: k_def)
  have ax: "\<bar>x\<bar> = x" "x \<noteq> 0" using assms(1) by simp_all
  have td: "to_double x = of_int (round_half_even (x * 2 ^ k)) / 2 ^ k"
    using r ax by (simp add: to_double_def Let_def k_def)
  have p: "(0::rat) < 2 ^ k" by simp
  have "to_double x - x = (of_int (round_half_even (x * 2 ^ k)) - x * 2 ^ k) / 2 ^ k"
    unfolding td by (simp add: diff_divide_distrib)
  then have "\<bar>to_double x - x\<bar> = \<bar>of_int (round_half_even (x * 2 ^ k)) - x * 2 ^ k\<bar> / 2 ^ k"
    by (simp add: abs_divide)
  also have "\<dots> \<le> (1 / 2) / 2 ^ k"
    using round_half_even_err [of "x * 2 ^ k"] by (rule divide_right_mono) simp
  also have "\<dots> \<le> (1 / 2) / 2 ^ 46"
  proof -
    have "(2::rat) ^ 46 \<le> 2 ^ k" using k by (intro power_increasing) simp_all
    then show ?thesis by (intro divide_left_mono) simp_all
  qed
  finally show ?thesis by simp
qed

lemma half_up_err:
  fixes c p :: rat
  assumes "0 < p"
  shows "c - 1 / (2 * p) < of_int \<lfloor>c * p + 1 / 2\<rfloor> / p"
    and "of_int \<lfloor>c * p + 1 / 2\<rfloor> / p \<le> c + 1 / (2 * p)"
proof -
  let ?n = "\<lfloor>c * p + 1 / 2\<rfloor>"
  have f: "of_int ?n \<le> c * p + 1 / 2" "c * p + 1 / 2 < of_int ?n + 1" by linarith+
  have "(c * p - 1 / 2) / p < of_int ?n / p"
    using f(2) assms by (intro divide_strict_right_mono) simp_all
  moreover have "(c * p - 1 / 2) / p = c - 1 / (2 * p)"
    using assms by (simp add: field_simps)
  ultimately show "c - 1 / (2 * p) < of_int ?n / p" by simp
  have "of_int ?n / p \<le> (c * p + 1 / 2) / p"
    using f(1) assms by (intro divide_right_mono) simp_all
  moreover have "(c * p + 1 / 2) / p = c + 1 / (2 * p)"
    using assms by (simp add: field_simps)
  ultimately show "of_int ?n / p \<le> c + 1 / (2 * p)" by simp
qed

lemma centroid_inside:
  fixes lo hi :: rat
  assumes "hi - lo = 30 / 4 ^ L" and "1 \<le> L" and "L \<le> 12" and "6 \<le> lo" and "hi \<le> 98"
  shows "\<exists>t. toFixed ((lo + hi) / 2) (fraction_digits (hi - lo)) = Inr t \<and> lo < t \<and> t < hi"
proof -
  define s :: rat where "s = 30 / 4 ^ L"
  define c where "c = (lo + hi) / 2"
  from fraction_digits_span [OF assms(2,3)] obtain d
    where d: "fraction_digits s = Some d" and big: "10 < s * 10 ^ d"
    unfolding s_def by blast
  define p :: rat where "p = 10 ^ d"
  define r where "r = of_int \<lfloor>c * p + 1 / 2\<rfloor> / p"
  have p: "0 < p" by (simp add: p_def)
  have span: "hi - lo = s" using assms(1) by (simp add: s_def)
  have spos: "0 < s" by (simp add: s_def)
  have "(4::rat) ^ L \<le> 4 ^ 12" using assms(3) by (intro power_increasing) simp_all
  then have "30 / (4::rat) ^ 12 \<le> 30 / 4 ^ L" by (intro divide_left_mono) simp_all
  then have smin: "15 / 8388608 \<le> s" by (simp add: s_def)
  have c: "c = lo + s / 2" "c = hi - s / 2" using span by (simp_all add: c_def field_simps)
  have "10 / p < s" using big p by (simp add: p_def pos_divide_less_eq)
  then have e: "1 / (2 * p) < s / 20" by (simp add: field_simps)
  have r: "c - 1 / (2 * p) < r" "r \<le> c + 1 / (2 * p)"
    unfolding r_def using half_up_err [OF p, of c] by blast+
  have rlo: "lo + 9 * s / 20 < r" and rhi: "r < hi - 9 * s / 20"
    using r e c by linarith+
  have r1: "1 \<le> r" "r < 128" using rlo rhi assms(4,5) spos by linarith+
  have "\<bar>to_double r - r\<bar> \<le> 1 / 2 ^ 47" using r1 by (rule to_double_err)
  then have err: "\<bar>to_double r - r\<bar> \<le> 1 / 140737488355328" by simp
  have small: "1 / 140737488355328 < 9 * s / 20" using smin by linarith
  have inside: "lo < to_double r" "to_double r < hi"
    using err small rlo rhi by linarith+
  have c0: "\<not> c < 0" "\<not> 10 ^ 21 \<le> \<bar>c\<bar>"
    using c(1) assms(4,5) spos c(2) by (simp_all add: abs_if)
  have "toFixed c (fraction_digits s) = Inr (to_double r)"
    using c0 by (simp add: toFixed_def d r_def p_def)
  with inside show ?thesis unfolding c_def span by blast
qed

lemma decode_inside:
  assumes "valid_geohash h"
  obtains posn w where "decode h = Inr posn" and "w = walk_bits (bits_of_hex h) walk_init"
    and "latMin w < lat posn" and "lat posn < latMax w"
    and "lonMin w < lon posn" and "lon posn < lonMax w"
    and "6 < lat posn" and "lat posn < 36" and "68 < lon posn" and "lon posn < 98"
proof -
  from assms have ne: "h \<noteq> []" and al: "\<forall>c\<in>set h. c \<in> set base16"
    and len: "1 \<le> length h" "length h \<le> 12"
    by (auto simp: valid_geohash_def Suc_le_eq)
  have low: "toLowerCase h = h" using al by (rule toLowerCase_valid)
  from al have al': "\<forall>c\<in>set h. toLowerCase_char c \<in> set base16"
    by (simp add: toLowerCase_base16)
  from ne al' obtain w where w: "bounds_loop (toLowerCase h) walk_init = Inr w"
    and b: "bounds h = Inr (cell_of w)"
    and lo: "lonMax w - lonMin w = 30 / 4 ^ length h"
    and la: "latMax w - latMin w = 30 / 4 ^ length h"
    and dom: "68 \<le> lonMin w" "lonMax w \<le> 98" "6 \<le> latMin w" "latMax w \<le> 36"
    by (rule bounds_readable)
  have weq: "w = walk_bits (bits_of_hex h) walk_init"
    using w bounds_loop_bits [OF al, of walk_init] by (simp add: low)
  have la98: "latMax w \<le> 98" and lo6: "6 \<le> lonMin w" using dom by linarith+
  from centroid_inside [OF la len dom(3) la98] obtain t1
    where t1: "toFixed ((latMin w + latMax w) / 2) (fraction_digits (latMax w - latMin w)) = Inr t1"
      "latMin w < t1" "t1 < latMax w"
    by blast
  from centroid_inside [OF lo len lo6 dom(2)] obtain t2
    where t2: "toFixed ((lonMin w + lonMax w) / 2) (fraction_digits (lonMax w - lonMin w)) = Inr t2"
      "lonMin w < t2" "t2 < lonMax w"
    by blast
  have d: "decode h = Inr \<lparr>lat = t1, lon = t2\<rparr>"
    by (simp add: decode_def b cell_of_simps Let_def t1(1) t2(1))
  have "6 < t1" "t1 < 36" "68 < t2" "t2 < 98" using t1(2,3) t2(2,3) dom by linarith+
  with d weq t1(2,3) t2(2,3) that [of "\<lparr>lat = t1, lon = t2\<rparr>" w] show thesis by simp
qed

lemma walk_init_ordered: "latMin walk_init < latMax walk_init" "lonMin walk_init < lonMax walk_init"
  by (simp_all add: walk_init_def)

text \<open>
  C1. For every geohash \<open>h\<close> of one to twelve symbols, \<^verbatim>\<open>decode(h)\<close> returns a coordinate,
  and encoding that coordinate with the precision \<open>length h\<close> gives \<open>h\<close> again.
\<close>

theorem encode_decode_roundtrip:
  assumes "valid_geohash h"
  shows "\<exists>posn. decode h = Inr posn
           \<and> encode (Fin (lat posn)) (Fin (lon posn)) (Some (Fin (of_nat (length h))))
               = Some (Inr h)"
proof -
  from assms obtain posn w where d: "decode h = Inr posn"
    and w: "w = walk_bits (bits_of_hex h) walk_init"
    and la: "latMin w < lat posn" "lat posn < latMax w"
    and lo: "lonMin w < lon posn" "lon posn < lonMax w"
    by (rule decode_inside)
  from assms have al: "\<forall>c\<in>set h. c \<in> set base16" by (simp add: valid_geohash_def)
  have len: "length (bits_of_hex h) = 4 * length h" using al by (rule length_bits_of_hex)
  have "enc_bits (Fin (lat posn)) (Fin (lon posn)) (length (bits_of_hex h)) walk_init
          = bits_of_hex h"
    using la lo unfolding w by (intro enc_bits_inverse walk_init_ordered) simp_all
  then have "hex_of_bits (enc_bits (Fin (lat posn)) (Fin (lon posn)) (4 * length h) walk_init) = h"
    using hex_of_bits_of_hex [OF al] by (simp add: len)
  moreover have "encode (Fin (lat posn)) (Fin (lon posn)) (Some (Fin (of_nat (length h))))
      = Some (Inr (hex_of_bits
          (enc_bits (Fin (lat posn)) (Fin (lon posn)) (4 * length h) walk_init)))"
    using encode_p_Fin [of "Fin (lat posn)" "Fin (lon posn)" "of_nat (length h)"]
    by (simp add: encode_def isNaN_def)
  ultimately show ?thesis using d by simp
qed

theorem encode_decode_roundtrip_witness:
  "encode (Fin 20) (Fin 80) (Some (Fin 4)) = Some (Inr ''3d3d'')
   \<and> valid_geohash ''3d3d''
   \<and> (\<exists>posn. decode ''3d3d'' = Inr posn
           \<and> encode (Fin (lat posn)) (Fin (lon posn)) (Some (Fin (of_nat (length ''3d3d''))))
               = Some (Inr ''3d3d''))"
proof -
  have "hex_of_bits (enc_bits (Fin 20) (Fin 80) (4 * 4) walk_init) = ''3d3d''" by code_simp
  then have e: "encode (Fin 20) (Fin 80) (Some (Fin 4)) = Some (Inr ''3d3d'')"
    using encode_p_Fin [of "Fin 20" "Fin 80" 4] by (simp add: encode_def isNaN_def)
  have v: "valid_geohash ''3d3d''" by code_simp
  from encode_decode_roundtrip [OF v] e v show ?thesis by blast
qed

section \<open>An instance of the automatic precision\<close>

lemma centroid_matches_hash:
  assumes "\<not> isNaN lat'" and "\<not> isNaN lon'"
    and "hex_of_bits (enc_bits lat' lon' (4 * p) walk_init) = h"
  shows "centroid_matches lat' lon' p
           = (case decode h of
                Inr posn \<Rightarrow> Fin (lat posn) = lat' \<and> Fin (lon posn) = lon'
              | Inl e \<Rightarrow> False)"
  using encode_p_Fin [OF assms(1,2), of "of_nat p"] assms(3)
  by (simp add: centroid_matches_def encode_def)

lemma centroid_outside:
  assumes "x \<le> 6" and "\<not> isNaN lon'" and "1 \<le> p" and "p \<le> 12"
  shows "\<not> centroid_matches (Fin x) lon' p"
proof -
  have nn: "\<not> isNaN (Fin x)" by (simp add: isNaN_def)
  from nn assms(2,3,4) obtain h
    where e: "encode_p (Fin x) lon' (Fin (of_nat p)) = Some (Inr h)" and v: "valid_geohash h"
    by (rule encode_p_valid)
  from v obtain posn where d: "decode h = Inr posn" and "6 < lat posn"
    by (rule decode_inside)
  with assms(1) have "lat posn \<noteq> x" by simp
  then show ?thesis
    by (simp add: centroid_matches_def encode_def e d)
qed

theorem encode_auto_precision_witness:
  "\<not> isNaN (Fin 7) \<and> \<not> isNaN (Fin 69)
   \<and> centroid_matches (Fin 7) (Fin 69) 4
   \<and> \<not> centroid_matches (Fin 7) (Fin 69) 1
   \<and> \<not> centroid_matches (Fin 7) (Fin 69) 2
   \<and> \<not> centroid_matches (Fin 7) (Fin 69) 3
   \<and> encode (Fin 7) (Fin 69) None = encode (Fin 7) (Fin 69) (Some (Fin (of_nat 4)))
   \<and> encode (Fin 7) (Fin 69) None = Some (Inr ''00c0'')
   \<and> \<not> isNaN (Fin 5) \<and> \<not> isNaN (Fin 80)
   \<and> encode (Fin 5) (Fin 80) None = encode (Fin 5) (Fin 80) (Some (Fin 12))"
proof -
  have n: "\<not> isNaN (Fin 7)" "\<not> isNaN (Fin 69)"
    by (simp_all add: isNaN_def)
  have h1: "hex_of_bits (enc_bits (Fin 7) (Fin 69) (4 * 1) walk_init) = ''0''" by code_simp
  have h2: "hex_of_bits (enc_bits (Fin 7) (Fin 69) (4 * 2) walk_init) = ''00''" by code_simp
  have h3: "hex_of_bits (enc_bits (Fin 7) (Fin 69) (4 * 3) walk_init) = ''00c''" by code_simp
  have h4: "hex_of_bits (enc_bits (Fin 7) (Fin 69) (4 * 4) walk_init) = ''00c0''" by code_simp
  have d1: "\<not> (case decode ''0'' of Inr posn \<Rightarrow> Fin (lat posn) = Fin 7 \<and> Fin (lon posn) = Fin 69
                | Inl e \<Rightarrow> False)" by code_simp
  have d2: "\<not> (case decode ''00'' of Inr posn \<Rightarrow> Fin (lat posn) = Fin 7 \<and> Fin (lon posn) = Fin 69
                | Inl e \<Rightarrow> False)" by code_simp
  have d3: "\<not> (case decode ''00c'' of Inr posn \<Rightarrow> Fin (lat posn) = Fin 7 \<and> Fin (lon posn) = Fin 69
                | Inl e \<Rightarrow> False)" by code_simp
  have d4: "case decode ''00c0'' of Inr posn \<Rightarrow> Fin (lat posn) = Fin 7 \<and> Fin (lon posn) = Fin 69
                | Inl e \<Rightarrow> False" by code_simp
  have m: "centroid_matches (Fin 7) (Fin 69) 4" "\<not> centroid_matches (Fin 7) (Fin 69) 1"
    "\<not> centroid_matches (Fin 7) (Fin 69) 2" "\<not> centroid_matches (Fin 7) (Fin 69) 3"
    using d1 d2 d3 d4
    by (simp_all only: centroid_matches_hash [OF n(1,2) h1] centroid_matches_hash [OF n(1,2) h2]
        centroid_matches_hash [OF n(1,2) h3] centroid_matches_hash [OF n(1,2) h4]
        simp_thms)
  have least: "\<forall>q. 1 \<le> q \<and> q < 4 \<longrightarrow> \<not> centroid_matches (Fin 7) (Fin 69) q"
  proof (intro allI impI)
    fix q :: nat assume "1 \<le> q \<and> q < 4"
    then have "q = 1 \<or> q = 2 \<or> q = 3" by arith
    with m show "\<not> centroid_matches (Fin 7) (Fin 69) q" by blast
  qed
  have a: "(1::nat) \<le> 4 \<and> (4::nat) \<le> 12" by simp
  from encode_auto_precision [OF n(1,2)] m(1) least a
  have r1: "encode (Fin 7) (Fin 69) None = encode (Fin 7) (Fin 69) (Some (Fin (of_nat 4)))"
    by blast
  have "encode (Fin 7) (Fin 69) (Some (Fin (of_nat 4))) = Some (Inr ''00c0'')"
    using encode_p_Fin [OF n, of "of_nat 4"] h4 by (simp add: encode_def)
  then have r2: "encode (Fin 7) (Fin 69) None = Some (Inr ''00c0'')"
    using r1 by simp
  have n5: "\<not> isNaN (Fin 5)" "\<not> isNaN (Fin 80)"
    by (simp_all add: isNaN_def)
  have none: "\<forall>p. 1 \<le> p \<and> p \<le> 12 \<longrightarrow> \<not> centroid_matches (Fin 5) (Fin 80) p"
    using centroid_outside [OF _ n5(2)] by simp
  from encode_auto_precision [OF n5] none
  have r3: "encode (Fin 5) (Fin 80) None = encode (Fin 5) (Fin 80) (Some (Fin 12))"
    by blast
  from n m r1 r2 n5 r3 show ?thesis by blast
qed

end
